theory Spec2Isabelle
  imports Main
begin

section \<open>Texts and characters\<close>

text \<open>
  A text is a \<open>string\<close>; one \<open>char\<close> stands for one code point, so the development
  covers texts over the code points 0 to 255. The predicates below are Python's
  \<open>str.isspace\<close> and the word-character test of \<open>re\<close> on that range; the case
  conversions \<open>lower\<close> and \<open>upper\<close> are Python's on ASCII texts: a letter outside
  ASCII is left as it is.
\<close>

definition code :: "char \<Rightarrow> nat" where
  "code c = of_char c"

definition isspace :: "char \<Rightarrow> bool" where
  "isspace c = (let n = code c in (9 \<le> n \<and> n \<le> 13) \<or> (28 \<le> n \<and> n \<le> 32) \<or> n = 133 \<or> n = 160)"

definition isalnum_ascii :: "char \<Rightarrow> bool" where
  "isalnum_ascii c = (let n = code c in (48 \<le> n \<and> n \<le> 57) \<or> (65 \<le> n \<and> n \<le> 90) \<or> (97 \<le> n \<and> n \<le> 122))"

definition isword :: "char \<Rightarrow> bool" where
  "isword c = (let n = code c in isalnum_ascii c \<or> n = 95 \<or> n = 170 \<or> n = 178 \<or> n = 179
     \<or> n = 181 \<or> n = 185 \<or> n = 186 \<or> (188 \<le> n \<and> n \<le> 190) \<or> (192 \<le> n \<and> n \<le> 214)
     \<or> (216 \<le> n \<and> n \<le> 246) \<or> 248 \<le> n)"

definition lower_char :: "char \<Rightarrow> char" where
  "lower_char c = (let n = code c in if 65 \<le> n \<and> n \<le> 90 then char_of (n + 32) else c)"

definition upper_char :: "char \<Rightarrow> char" where
  "upper_char c = (let n = code c in if 97 \<le> n \<and> n \<le> 122 then char_of (n - 32) else c)"

definition lower :: "string \<Rightarrow> string" where
  "lower s = map lower_char s"

definition upper :: "string \<Rightarrow> string" where
  "upper s = map upper_char s"

text \<open>\<open>s.strip()\<close> and \<open>s.strip(chars)\<close>.\<close>

definition strip_with :: "(char \<Rightarrow> bool) \<Rightarrow> string \<Rightarrow> string" where
  "strip_with P s = rev (dropWhile P (rev (dropWhile P s)))"

definition strip :: "string \<Rightarrow> string" where
  "strip s = strip_with isspace s"

definition strip_chars :: "string \<Rightarrow> string \<Rightarrow> string" where
  "strip_chars cs s = strip_with (\<lambda>c. c \<in> set cs) s"

text \<open>Python's slice \<open>t[a:b]\<close>: negative indices count from the end, both are clamped.\<close>

definition norm_index :: "nat \<Rightarrow> int \<Rightarrow> nat" where
  "norm_index n i = (if i < 0 then nat (max 0 (int n + i)) else min n (nat i))"

definition slice :: "string \<Rightarrow> int \<Rightarrow> int \<Rightarrow> string" where
  "slice t a b = drop (norm_index (length t) a) (take (norm_index (length t) b) t)"

text \<open>\<open>needle in s\<close> and \<open>s.startswith(p)\<close>.\<close>

fun contains :: "string \<Rightarrow> string \<Rightarrow> bool" where
  "contains needle [] = (needle = [])"
| "contains needle (c # cs) = (take (length needle) (c # cs) = needle \<or> contains needle cs)"

definition startswith :: "string \<Rightarrow> string \<Rightarrow> bool" where
  "startswith s p = (take (length p) s = p)"

section \<open>The regular expressions of Python's \<open>re\<close>\<close>

text \<open>
  The patterns of the sources are written in the datatype \<open>rx\<close>. The matcher is the
  backtracking matcher of \<open>re\<close>: \<open>rmatch r st\<close> lists the states in which \<open>r\<close> can end
  when started in \<open>st\<close>, in the order in which backtracking tries them, so the head
  of the list is the match that \<open>re\<close> reports. A state is the position, the character
  before it (for \<open>\b\<close>), the text from the position on, and the groups captured
  so far.
\<close>

datatype atom = Ch char | Rng char char | Sp | NSp

datatype cls = In "atom list" | NotIn "atom list" | Dot | Any

fun in_atom :: "atom \<Rightarrow> char \<Rightarrow> bool" where
  "in_atom (Ch a) c = (c = a)"
| "in_atom (Rng a b) c = (code a \<le> code c \<and> code c \<le> code b)"
| "in_atom Sp c = isspace c"
| "in_atom NSp c = (\<not> isspace c)"

fun in_cls :: "cls \<Rightarrow> char \<Rightarrow> bool" where
  "in_cls (In as) c = list_ex (\<lambda>a. in_atom a c) as"
| "in_cls (NotIn as) c = (\<not> list_ex (\<lambda>a. in_atom a c) as)"
| "in_cls Dot c = (c \<noteq> CHR 0x0A)"
| "in_cls Any c = True"

datatype rx =
    Lit string
  | Cls cls
  | Star cls
  | Plus cls
  | Lazy cls
  | Rep nat cls
  | Opt rx
  | Grp nat rx
  | Alt rx rx
  | Cat "rx list"
  | Bref nat
  | WordB

type_synonym groups = "(nat \<times> string) list"

type_synonym mstate = "nat \<times> char option \<times> string \<times> groups"

definition last_char :: "char option \<Rightarrow> string \<Rightarrow> char option" where
  "last_char p w = (if w = [] then p else Some (last w))"

definition lit_step :: "string \<Rightarrow> mstate \<Rightarrow> mstate list" where
  "lit_step w st = (case st of (i, p, rest, g) \<Rightarrow>
     if take (length w) rest = w then [(i + length w, last_char p w, drop (length w) rest, g)] else [])"

text \<open>The states after 0, 1, 2, ... characters of the class, shortest first.\<close>

fun run_states :: "cls \<Rightarrow> nat \<Rightarrow> char option \<Rightarrow> string \<Rightarrow> groups \<Rightarrow> mstate list" where
  "run_states c i p [] g = [(i, p, [], g)]"
| "run_states c i p (x # xs) g =
     (i, p, x # xs, g) # (if in_cls c x then run_states c (Suc i) (Some x) xs g else [])"

definition at_boundary :: "char option \<Rightarrow> string \<Rightarrow> bool" where
  "at_boundary p rest =
     ((case p of None \<Rightarrow> False | Some c \<Rightarrow> isword c) \<noteq> (case rest of [] \<Rightarrow> False | x # _ \<Rightarrow> isword x))"

fun rmatch :: "rx \<Rightarrow> mstate \<Rightarrow> mstate list" where
  "rmatch (Lit w) st = lit_step w st"
| "rmatch (Cls c) (i, p, rest, g) =
     (case rest of [] \<Rightarrow> [] | x # xs \<Rightarrow> if in_cls c x then [(Suc i, Some x, xs, g)] else [])"
| "rmatch (Star c) (i, p, rest, g) = rev (run_states c i p rest g)"
| "rmatch (Plus c) (i, p, rest, g) = rev (tl (run_states c i p rest g))"
| "rmatch (Lazy c) (i, p, rest, g) = run_states c i p rest g"
| "rmatch (Rep n c) (i, p, rest, g) = take 1 (drop n (run_states c i p rest g))"
| "rmatch (Opt r) st = rmatch r st @ [st]"
| "rmatch (Grp n r) (i, p, rest, g) =
     map (\<lambda>(j, p', rest', g'). (j, p', rest', (n, take (j - i) rest) # g')) (rmatch r (i, p, rest, g))"
| "rmatch (Alt a b) st = rmatch a st @ rmatch b st"
| "rmatch (Cat rs) st = foldl (\<lambda>sts r. concat (map (rmatch r) sts)) [st] rs"
| "rmatch (Bref n) (i, p, rest, g) =
     (case map_of g n of None \<Rightarrow> [] | Some w \<Rightarrow> lit_step w (i, p, rest, g))"
| "rmatch WordB (i, p, rest, g) = (if at_boundary p rest then [(i, p, rest, g)] else [])"

text \<open>A match object: \<open>m.start()\<close>, \<open>m.end()\<close> and the groups.\<close>

record re_match =
  m_start :: nat
  m_end :: nat
  m_groups :: groups

definition group :: "re_match \<Rightarrow> nat \<Rightarrow> string option" where
  "group m n = map_of (m_groups m) n"

text \<open>\<open>m.group(n) or ""\<close>.\<close>

definition group_or_empty :: "re_match \<Rightarrow> nat \<Rightarrow> string" where
  "group_or_empty m n = (case group m n of None \<Rightarrow> [] | Some w \<Rightarrow> w)"

text \<open>
  The first state of a list that the scanner accepts: after an empty match the next
  match at the same position must not be empty.
\<close>

fun first_ok :: "bool \<Rightarrow> nat \<Rightarrow> mstate list \<Rightarrow> mstate option" where
  "first_ok adv i [] = None"
| "first_ok adv i ((j, p, rest, g) # sts) =
     (if adv \<and> j = i then first_ok adv i sts else Some (j, p, rest, g))"

text \<open>\<open>re.search\<close>: the first position, from the left, at which the pattern matches.\<close>

fun search_at :: "rx \<Rightarrow> nat \<Rightarrow> char option \<Rightarrow> string \<Rightarrow> re_match option" where
  "search_at r i p [] =
     (case rmatch r (i, p, [], []) of [] \<Rightarrow> None
      | (j, _, _, g) # _ \<Rightarrow> Some \<lparr>m_start = i, m_end = j, m_groups = g\<rparr>)"
| "search_at r i p (x # xs) =
     (case rmatch r (i, p, x # xs, []) of [] \<Rightarrow> search_at r (Suc i) (Some x) xs
      | (j, _, _, g) # _ \<Rightarrow> Some \<lparr>m_start = i, m_end = j, m_groups = g\<rparr>)"

definition re_search :: "rx \<Rightarrow> string \<Rightarrow> re_match option" where
  "re_search r s = search_at r 0 None s"

subsection \<open>Progress of the matcher\<close>

text \<open>
  Every state the matcher returns lies at or after the state it started in, and its
  text is what is left of the starting text. The iteration over all matches of a
  text terminates for this reason.
\<close>

definition reaches :: "mstate \<Rightarrow> mstate \<Rightarrow> bool" where
  "reaches st st' = (case st of (i, p, rest, g) \<Rightarrow> case st' of (j, p', rest', g') \<Rightarrow>
     i \<le> j \<and> j - i \<le> length rest \<and> rest' = drop (j - i) rest)"

lemma reaches_refl: "reaches st st"
  by (cases st) (simp add: reaches_def)

lemma reaches_trans: "reaches a b \<Longrightarrow> reaches b c \<Longrightarrow> reaches a c"
  by (cases a; cases b; cases c) (auto simp: reaches_def)

lemma lit_step_reaches: "st' \<in> set (lit_step w st) \<Longrightarrow> reaches st st'"
proof (cases st)
  case (fields i p rest g)
  assume "st' \<in> set (lit_step w st)"
  with fields have eq: "take (length w) rest = w" and st': "st' = (i + length w, last_char p w, drop (length w) rest, g)"
    by (auto simp: lit_step_def split: if_splits)
  from eq have "length (take (length w) rest) = length w"
    by (rule arg_cong)
  then have "length w \<le> length rest" by simp
  with st' fields show ?thesis by (simp add: reaches_def)
qed

lemma run_states_reaches: "st' \<in> set (run_states c i p rest g) \<Longrightarrow> reaches (i, p, rest, g) st'"
proof (induction c i p rest g rule: run_states.induct)
  case (1 c i p g)
  then show ?case by (simp add: reaches_def)
next
  case (2 c i p x xs g)
  show ?case
  proof (cases "st' = (i, p, x # xs, g)")
    case True
    then show ?thesis by (simp add: reaches_def)
  next
    case False
    with 2 have "reaches (Suc i, Some x, xs, g) st'" by (auto split: if_splits)
    moreover have "reaches (i, p, x # xs, g) (Suc i, Some x, xs, g)" by (simp add: reaches_def)
    ultimately show ?thesis by (blast intro: reaches_trans)
  qed
qed

lemma foldl_reaches:
  assumes "\<And>r a b. r \<in> set rs \<Longrightarrow> b \<in> set (rmatch r a) \<Longrightarrow> reaches a b"
    and "\<forall>a \<in> set sts. reaches st a"
    and "b \<in> set (foldl (\<lambda>sts r. concat (map (rmatch r) sts)) sts rs)"
  shows "reaches st b"
  using assms
proof (induction rs arbitrary: sts)
  case Nil
  then show ?case by simp
next
  case (Cons r rs)
  have "\<forall>a \<in> set (concat (map (rmatch r) sts)). reaches st a"
  proof
    fix a assume "a \<in> set (concat (map (rmatch r) sts))"
    then obtain s0 where s0: "s0 \<in> set sts" "a \<in> set (rmatch r s0)" by auto
    from s0(1) Cons.prems(2) have "reaches st s0" by blast
    moreover have "reaches s0 a" using Cons.prems(1)[of r a s0] s0(2) by auto
    ultimately show "reaches st a" by (rule reaches_trans)
  qed
  moreover have "reaches a b" if "r' \<in> set rs" "b \<in> set (rmatch r' a)" for r' a b
    using Cons.prems(1)[of r' b a] that by auto
  ultimately show ?case using Cons.IH[of "concat (map (rmatch r) sts)"] Cons.prems(3) by auto
qed

lemma mem_tl: "x \<in> set (tl xs) \<Longrightarrow> x \<in> set xs"
  by (cases xs) auto

lemma rmatch_reaches: "st' \<in> set (rmatch r st) \<Longrightarrow> reaches st st'"
proof (induction r arbitrary: st st')
  case (Lit w)
  then show ?case by (simp add: lit_step_reaches)
next
  case (Cls c)
  then show ?case by (cases st) (auto simp: reaches_def split: list.splits if_splits)
next
  case (Star c)
  then show ?case by (cases st) (auto dest: run_states_reaches)
next
  case (Plus c)
  then show ?case by (cases st) (auto dest: run_states_reaches mem_tl)
next
  case (Lazy c)
  then show ?case by (cases st) (auto dest: run_states_reaches)
next
  case (Rep n c)
  then show ?case by (cases st) (auto dest!: in_set_takeD in_set_dropD run_states_reaches)
next
  case (Opt r)
  from Opt.prems have "st' \<in> set (rmatch r st) \<or> st' = st" by auto
  then show ?case using Opt.IH reaches_refl by blast
next
  case (Grp n r)
  then show ?case by (cases st) (fastforce simp: reaches_def)
next
  case (Alt a b)
  from Alt.prems have "st' \<in> set (rmatch a st) \<or> st' \<in> set (rmatch b st)" by auto
  then show ?case using Alt.IH by blast
next
  case (Cat rs)
  show ?case
    by (rule foldl_reaches [where rs = rs and sts = "[st]"]) (use Cat in \<open>auto simp: reaches_refl\<close>)
next
  case (Bref n)
  then show ?case by (cases st) (auto split: option.splits dest: lit_step_reaches)
next
  case WordB
  then show ?case by (cases st) (auto simp: reaches_refl split: if_splits)
qed

lemma first_ok_mem: "first_ok adv i sts = Some st' \<Longrightarrow> st' \<in> set sts"
  by (induction adv i sts rule: first_ok.induct) (auto split: if_splits)

lemma first_ok_adv: "first_ok True i sts = Some (j, p, rest, g) \<Longrightarrow> j \<noteq> i"
  by (induction "True" i sts rule: first_ok.induct) (auto split: if_splits)

subsection \<open>\<open>re.finditer\<close>, \<open>re.findall\<close> and \<open>re.sub\<close>\<close>

text \<open>
  The scanner of \<open>re\<close>: the matches of a text from left to right, none overlapping
  another. After an empty match the search goes on at the same position, where only
  a non-empty match counts (\<open>adv\<close>).
\<close>

function finditer_at :: "rx \<Rightarrow> bool \<Rightarrow> nat \<Rightarrow> char option \<Rightarrow> string \<Rightarrow> re_match list" where
  "finditer_at r adv i p rest =
     (case first_ok adv i (rmatch r (i, p, rest, [])) of
        Some (j, p', rest', g) \<Rightarrow>
          \<lparr>m_start = i, m_end = j, m_groups = g\<rparr> # finditer_at r (j = i) j p' rest'
      | None \<Rightarrow> (case rest of [] \<Rightarrow> [] | x # xs \<Rightarrow> finditer_at r False (Suc i) (Some x) xs))"
  by pat_completeness auto
termination
proof (relation "measure (\<lambda>(r, adv, i, p, rest). 2 * length rest + (if adv then 0 else 1))", goal_cases)
  case 1
  then show ?case by simp
next
  case (2 r adv i p rest x xs)
  then show ?case by simp
next
  case (3 r adv i p rest st j x2 p' x3 rest' g)
  then have ok: "first_ok adv i (rmatch r (i, p, rest, [])) = Some (j, p', rest', g)" by simp
  then have "reaches (i, p, rest, []) (j, p', rest', g)"
    by (blast dest: first_ok_mem rmatch_reaches)
  then have r: "i \<le> j" "j - i \<le> length rest" "rest' = drop (j - i) rest"
    by (simp_all add: reaches_def)
  show ?case
  proof (cases "j = i")
    case True
    with ok have "\<not> adv" by (cases adv) (auto dest: first_ok_adv)
    with True r show ?thesis by simp
  next
    case False
    with r show ?thesis by auto
  qed
qed

declare finditer_at.simps [simp del]

definition finditer :: "rx \<Rightarrow> string \<Rightarrow> re_match list" where
  "finditer r s = finditer_at r False 0 None s"

text \<open>\<open>re.sub\<close> with a constant replacement: the text between the matches is kept.\<close>

fun splice :: "string \<Rightarrow> nat \<Rightarrow> string \<Rightarrow> re_match list \<Rightarrow> string" where
  "splice repl pos rest [] = rest"
| "splice repl pos rest (m # ms) =
     take (m_start m - pos) rest @ repl @ splice repl (m_end m) (drop (m_end m - pos) rest) ms"

definition re_sub :: "rx \<Rightarrow> string \<Rightarrow> string \<Rightarrow> string" where
  "re_sub r repl s = splice repl 0 s (finditer r s)"

section \<open>utils.py\<close>

definition strip_comments :: "string \<Rightarrow> string" where
  "strip_comments text =
     re_sub (Cat [Lit ''//'', Star Dot]) [] (re_sub (Cat [Lit ''/*'', Lazy Any, Lit ''*/'']) [] text)"

text \<open>\<open>\bword\b\<close>, the pattern every block is looked up with.\<close>

definition kw :: "string \<Rightarrow> rx" where
  "kw w = Cat [WordB, Lit w, WordB]"

text \<open>The first loop of \<open>find_block\<close>: skip white space from \<open>i\<close> on.\<close>

definition skip_spaces :: "string \<Rightarrow> nat \<Rightarrow> nat" where
  "skip_spaces text i = i + length (takeWhile isspace (drop i text))"

text \<open>
  The second loop: \<open>scan_close cs i depth\<close> reads \<open>cs\<close>, the text from index \<open>i\<close> on,
  and returns the index of the first closing brace met at depth 0.
\<close>

fun scan_close :: "string \<Rightarrow> nat \<Rightarrow> nat \<Rightarrow> nat option" where
  "scan_close [] i depth = None"
| "scan_close (c # cs) i depth =
     (if c = CHR ''{'' then scan_close cs (i + 1) (depth + 1)
      else if c = CHR ''}'' then (if depth = 0 then Some i else scan_close cs (i + 1) (depth - 1))
      else scan_close cs (i + 1) depth)"

definition find_block :: "string \<Rightarrow> rx \<Rightarrow> int \<times> int" where
  "find_block text start_pat =
     (case re_search start_pat text of
        None \<Rightarrow> (- 1, - 1)
      | Some m \<Rightarrow>
          (let i = skip_spaces text (m_end m) in
           if i \<ge> length text \<or> text ! i \<noteq> CHR ''{'' then (- 1, - 1)
           else (case scan_close (drop (i + 1) text) (i + 1) 0 of
                   None \<Rightarrow> (- 1, - 1)
                 | Some j \<Rightarrow> (int (i + 1), int j))))"

text \<open>\<open>sanitize_name\<close> and \<open>gha_job_id\<close>.\<close>

definition alnum :: "atom list" where
  "alnum = [Rng (CHR ''a'') (CHR ''z''), Rng (CHR ''A'') (CHR ''Z''), Rng (CHR ''0'') (CHR ''9'')]"

definition sanitize_name :: "string \<Rightarrow> string" where
  "sanitize_name name = re_sub (Cls (NotIn (alnum @ [Ch (CHR ''_''), Ch (CHR ''-'')]))) ''_'' (strip name)"

definition gha_job_id :: "string \<Rightarrow> string" where
  "gha_job_id name =
     (let slug = lower (strip_chars ''-'' (re_sub (Plus (NotIn alnum)) ''-'' (strip name)))
      in if slug = [] then ''job'' else slug)"

text \<open>
  \<open>str.splitlines\<close>: a line ends at a line feed, a carriage return (with the line feed
  after it, if any), a vertical tab, a form feed, a file, group or record separator,
  or a next-line character.
\<close>

definition is_linebreak :: "char \<Rightarrow> bool" where
  "is_linebreak c = (let n = code c in (10 \<le> n \<and> n \<le> 13) \<or> (28 \<le> n \<and> n \<le> 30) \<or> n = 133)"

fun splitlines_from :: "string \<Rightarrow> string \<Rightarrow> string list" where
  "splitlines_from cur [] = (if cur = [] then [] else [cur])"
| "splitlines_from cur [c] = (if is_linebreak c then [cur] else [cur @ [c]])"
| "splitlines_from cur (c # d # cs) =
     (if c = CHR 0x0D \<and> d = CHR 0x0A then cur # splitlines_from [] cs
      else if is_linebreak c then cur # splitlines_from [] (d # cs)
      else splitlines_from (cur @ [c]) (d # cs))"

definition splitlines :: "string \<Rightarrow> string list" where
  "splitlines s = splitlines_from [] s"

definition multiline_to_commands :: "string \<Rightarrow> string list" where
  "multiline_to_commands s = filter (\<lambda>ln. ln \<noteq> []) (map strip (splitlines s))"


lemma scan_close_span:
  "scan_close cs i d = Some j \<Longrightarrow>
     i \<le> j \<and> j < i + length cs \<and>
     count_list (take (j - i) cs) (CHR ''{'') + d = count_list (take (j - i) cs) (CHR ''}'')"
proof (induction cs arbitrary: i d)
  case Nil
  then show ?case by simp
next
  case (Cons c cs)
  show ?case
  proof (cases "c = CHR ''}'' \<and> d = 0")
    case True
    with Cons.prems show ?thesis by simp
  next
    case False
    let ?d' = "if c = CHR ''{'' then d + 1 else if c = CHR ''}'' then d - 1 else d"
    from False Cons.prems have rec: "scan_close cs (i + 1) ?d' = Some j"
      by (auto split: if_splits)
    from Cons.IH [OF rec] have ih: "i + 1 \<le> j" "j < i + 1 + length cs"
      "count_list (take (j - (i + 1)) cs) (CHR ''{'') + ?d' = count_list (take (j - (i + 1)) cs) (CHR ''}'')"
      by auto
    from ih(1) have "j - i = Suc (j - (i + 1))" by simp
    then have tk: "take (j - i) (c # cs) = c # take (j - (i + 1)) cs" by simp
    from ih False show ?thesis unfolding tk by (auto split: if_splits)
  qed
qed

section \<open>jenkins_extractors.py\<close>

text \<open>
  The pieces the patterns share: \<open>['\"]\<close>, \<open>[^'\"]\<close>, \<open>\s*\<close>, \<open>\s+\<close>,
  \<open>['\"]([^'\"]+)['\"]\<close> and \<open>['\"]([^'\"]*)['\"]\<close> with the group's number.
\<close>

definition quote :: cls where
  "quote = In [Ch (CHR 0x27), Ch (CHR 0x22)]"

definition nonquote :: cls where
  "nonquote = NotIn [Ch (CHR 0x27), Ch (CHR 0x22)]"

definition ws :: rx where
  "ws = Star (In [Sp])"

definition ws1 :: rx where
  "ws1 = Plus (In [Sp])"

definition quoted1 :: "nat \<Rightarrow> rx" where
  "quoted1 n = Cat [Cls quote, Grp n (Plus nonquote), Cls quote]"

definition quoted0 :: "nat \<Rightarrow> rx" where
  "quoted0 n = Cat [Cls quote, Grp n (Star nonquote), Cls quote]"

subsection \<open>\<open>split_stages\<close>\<close>

record stage =
  s_name :: string
  s_content :: string

text \<open>\<open>stage\s*\(\s*['\"]([^'\"]+)['\"]\s*\)\s*\{\<close>\<close>

definition stage_header :: rx where
  "stage_header = Cat [Lit ''stage'', ws, Lit ''('', ws, quoted1 1, ws, Lit '')'', ws, Lit ''{'']"

text \<open>
  The \<open>while True\<close> loop of \<open>split_stages\<close>, with the loop variable \<open>i\<close> and the list
  \<open>res\<close>. The inner loop is the brace scan of \<open>find_block\<close>; its \<open>else\<close> branch (the
  text ended before the braces closed) leaves the outer loop. Group 1 takes part in
  every match of the header.
\<close>

function split_loop :: "string \<Rightarrow> nat \<Rightarrow> stage list \<Rightarrow> stage list" where
  "split_loop stages_body i res =
     (case re_search stage_header (drop i stages_body) of
        None \<Rightarrow> res
      | Some m \<Rightarrow>
          (let name = group_or_empty m 1;
               abs_start = i + m_start m;
               block_start = abs_start + m_end m - m_start m - 1;
               j = block_start + 1;
               content_start = j
           in case scan_close (drop j stages_body) j 0 of
                None \<Rightarrow> res
              | Some j' \<Rightarrow>
                  split_loop stages_body (j' + 1)
                    (res @ [\<lparr>s_name = name, s_content = slice stages_body (int content_start) (int j')\<rparr>])))"
  by pat_completeness auto
termination
proof (relation "measure (\<lambda>(stages_body, i, res). length stages_body - i)", goal_cases)
  case 1
  then show ?case by simp
next
  case (2 stages_body i res m name abs_start block_start j content_start j')
  from 2 have "scan_close (drop j stages_body) j 0 = Some j'" by simp
  from scan_close_span [OF this] have "j \<le> j'" "j' < j + length (drop j stages_body)"
    by simp_all
  moreover from 2 have "i \<le> j" by simp
  ultimately show ?case by auto
qed

declare split_loop.simps [simp del]

definition split_stages :: "string \<Rightarrow> stage list" where
  "split_stages stages_body = split_loop stages_body 0 []"

text \<open>
  The same loop, recording where each stage it captures lies in the text: the index
  of its header, of the first character of its content, and of its closing brace.
\<close>

record span =
  sp_name :: string
  header_start :: nat
  content_start :: nat
  content_end :: nat




subsection \<open>The extractors\<close>

text \<open>\<open>re.findall\<close> for a pattern with one group: the group of every match.\<close>

definition findall1 :: "rx \<Rightarrow> string \<Rightarrow> string list" where
  "findall1 r s = map (\<lambda>m. group_or_empty m 1) (finditer r s)"

definition extract_parallel :: "string \<Rightarrow> stage list" where
  "extract_parallel stage_body =
     (case find_block stage_body (kw ''parallel'') of (ps, pe) \<Rightarrow>
        if ps = - 1 then [] else split_stages (slice stage_body ps pe))"

text \<open>\<open>branch\s+['\"]([^'\"]+)['\"]\<close>\<close>

definition extract_stage_when_branch :: "string \<Rightarrow> string" where
  "extract_stage_when_branch stage_body =
     (case find_block stage_body (kw ''when'') of (s, e) \<Rightarrow>
        if s = - 1 then []
        else (case re_search (Cat [Lit ''branch'', ws1, quoted1 1]) (slice stage_body s e) of
                None \<Rightarrow> [] | Some m \<Rightarrow> group_or_empty m 1))"

text \<open>
  \<open>extract_git_steps\<close>, with the pattern
  \<open>git\s+(?:branch\s*:\s*['\"]([^'\"]*)['\"](?:\s*,)?)?\s*(?:url\s*:\s*['\"]([^'\"]+)['\"](?:\s*,)?)?\s*(?:credentialsId\s*:\s*['\"]([^'\"]*)['\"])?\<close>
\<close>

record git_step =
  branch :: string
  url :: string
  credentialsId :: string

definition git_pattern :: rx where
  "git_pattern = Cat [Lit ''git'', ws1,
     Opt (Cat [Lit ''branch'', ws, Lit '':'', ws, quoted0 1, Opt (Cat [ws, Lit '',''])]), ws,
     Opt (Cat [Lit ''url'', ws, Lit '':'', ws, quoted1 2, Opt (Cat [ws, Lit '',''])]), ws,
     Opt (Cat [Lit ''credentialsId'', ws, Lit '':'', ws, quoted0 3])]"

definition extract_git_steps :: "string \<Rightarrow> git_step list" where
  "extract_git_steps stage_body =
     filter (\<lambda>g. url g \<noteq> [])
       (map (\<lambda>m. \<lparr>branch = group_or_empty m 1, url = group_or_empty m 2,
                   credentialsId = group_or_empty m 3\<rparr>)
          (finditer git_pattern stage_body))"

text \<open>
  \<open>extract_input_steps\<close>, with the pattern
  \<open>input\s*\(\s*message\s*:\s*['\"]([^'\"]+)['\"](?:\s*,\s*parameters\s*:\s*\[([^\]]*)\])?\s*\)\<close>
\<close>

record input_step =
  message :: string
  parameters :: string

definition input_pattern :: rx where
  "input_pattern = Cat [Lit ''input'', ws, Lit ''('', ws, Lit ''message'', ws, Lit '':'', ws, quoted1 1,
     Opt (Cat [ws, Lit '','', ws, Lit ''parameters'', ws, Lit '':'', ws, Lit ''['',
               Grp 2 (Star (NotIn [Ch (CHR '']'')])), Lit '']'']),
     ws, Lit '')'']"

definition extract_input_steps :: "string \<Rightarrow> input_step list" where
  "extract_input_steps stage_body =
     map (\<lambda>m. \<lparr>message = group_or_empty m 1, parameters = group_or_empty m 2\<rparr>)
       (finditer input_pattern stage_body)"

text \<open>
  \<open>extract_credentials_usage\<close>: three loops add to one set. The patterns are
  \<open>credentialsId\s*:\s*['\"]([^'\"]+)['\"]\<close>, \<open>credentials\s*\(\s*['\"]([^'\"]+)['\"]\s*\)\<close>
  and \<open>sshagent\s*\(\s*\[([^\]]+)\]\s*\)\<close>, whose group is read with
  \<open>['\"]?([^'\"]+)['\"]?\<close>.
\<close>

definition credentialsId_pattern :: rx where
  "credentialsId_pattern = Cat [Lit ''credentialsId'', ws, Lit '':'', ws, quoted1 1]"

definition credentials_call_pattern :: rx where
  "credentials_call_pattern = Cat [Lit ''credentials'', ws, Lit ''('', ws, quoted1 1, ws, Lit '')'']"

definition sshagent_pattern :: rx where
  "sshagent_pattern = Cat [Lit ''sshagent'', ws, Lit ''('', ws, Lit ''['',
     Grp 1 (Plus (NotIn [Ch (CHR '']'')])), Lit '']'', ws, Lit '')'']"

definition sshagent_entry_pattern :: rx where
  "sshagent_entry_pattern = Cat [Opt (Cls quote), Grp 1 (Plus nonquote), Opt (Cls quote)]"

definition sshagent_entries :: "string \<Rightarrow> string list" where
  "sshagent_entries cred_list =
     filter (\<lambda>c. c \<noteq> []) (map strip (findall1 sshagent_entry_pattern cred_list))"

definition extract_credentials_usage :: "string \<Rightarrow> string set" where
  "extract_credentials_usage stage_body =
     set (findall1 credentialsId_pattern stage_body)
     \<union> set (findall1 credentials_call_pattern stage_body)
     \<union> set (concat (map sshagent_entries (findall1 sshagent_pattern stage_body)))"

text \<open>
  \<open>extract_steps_commands\<close>. The three loops run one after the other over the same
  zone, with the patterns \<open>sh\s+([\"']{3})([\s\S]*?)\1\<close>, \<open>sh\s+['\"]([^'\"]+)['\"]\<close>
  and \<open>\becho\s+['\"]([^'\"]+)['\"]\<close>.
\<close>

definition sh_triple_pattern :: rx where
  "sh_triple_pattern = Cat [Lit ''sh'', ws1, Grp 1 (Rep 3 quote), Grp 2 (Lazy (In [Sp, NSp])), Bref 1]"

definition sh_pattern :: rx where
  "sh_pattern = Cat [Lit ''sh'', ws1, quoted1 1]"

definition echo_pattern :: rx where
  "echo_pattern = Cat [WordB, Lit ''echo'', ws1, quoted1 1]"

definition steps_zone :: "string \<Rightarrow> string" where
  "steps_zone stage_body =
     (case find_block stage_body (kw ''steps'') of (s, e) \<Rightarrow>
        strip_comments (if s \<noteq> - 1 then slice stage_body s e else stage_body))"

definition extract_steps_commands :: "string \<Rightarrow> string list" where
  "extract_steps_commands stage_body =
     (let zone = steps_zone stage_body in
        concat (map (\<lambda>m. multiline_to_commands (group_or_empty m 2)) (finditer sh_triple_pattern zone))
        @ map (\<lambda>m. strip (group_or_empty m 1)) (finditer sh_pattern zone)
        @ map (\<lambda>m. ''echo '' @ strip (group_or_empty m 1)) (finditer echo_pattern zone))"


text \<open>
  A Python \<open>dict\<close> keeps its keys in the order of their first insertion; storing
  under a key that is present replaces the value where it stands.
\<close>

fun dict_set :: "'k \<Rightarrow> 'v \<Rightarrow> ('k \<times> 'v) list \<Rightarrow> ('k \<times> 'v) list" where
  "dict_set k v [] = [(k, v)]"
| "dict_set k v ((k', v') # d) = (if k' = k then (k, v) # d else (k', v') # dict_set k v d)"

text \<open>\<open>s.split(sep)\<close> for a separator of one character.\<close>

fun split_on :: "char \<Rightarrow> string \<Rightarrow> string list" where
  "split_on sep [] = [[]]"
| "split_on sep (c # cs) =
     (if c = sep then [] # split_on sep cs
      else (case split_on sep cs of [] \<Rightarrow> [[c]] | w # rest \<Rightarrow> (c # w) # rest))"

text \<open>
  \<open>extract_parameters\<close>. A parameter is stored under its name with its type, its
  default (a string, or a truth value for a boolean parameter), its description and,
  for a choice only, its options. The three loops run one after the other, each over
  all matches of its pattern:
  \<open>string\s*\(\s*name\s*:\s*['\"]([^'\"]+)['\"](?:,\s*defaultValue\s*:\s*['\"]([^'\"]*)['\"])?(?:,\s*description\s*:\s*['\"]([^'\"]*)['\"])?\<close>,
  \<open>booleanParam\s*\(\s*name\s*:\s*['\"]([^'\"]+)['\"](?:,\s*defaultValue\s*:\s*(true|false))?(?:,\s*description\s*:\s*['\"]([^'\"]*)['\"])?\<close>
  and
  \<open>choice\s*\(\s*name\s*:\s*['\"]([^'\"]+)['\"](?:,\s*choices\s*:\s*\[([^\]]+)\])?(?:,\s*description\s*:\s*['\"]([^'\"]*)['\"])?\<close>.
\<close>

datatype param_default = Default_str string | Default_bool bool

record param_info =
  p_type :: string
  p_default :: param_default
  p_description :: string
  p_options :: "string list option"

definition param_head :: "string \<Rightarrow> rx" where
  "param_head w = Cat [Lit w, ws, Lit ''('', ws, Lit ''name'', ws, Lit '':'', ws, quoted1 1]"

definition param_description :: rx where
  "param_description = Opt (Cat [Lit '','', ws, Lit ''description'', ws, Lit '':'', ws, quoted0 3])"

definition string_param_pattern :: rx where
  "string_param_pattern = Cat [param_head ''string'',
     Opt (Cat [Lit '','', ws, Lit ''defaultValue'', ws, Lit '':'', ws, quoted0 2]), param_description]"

definition boolean_param_pattern :: rx where
  "boolean_param_pattern = Cat [param_head ''booleanParam'',
     Opt (Cat [Lit '','', ws, Lit ''defaultValue'', ws, Lit '':'', ws, Grp 2 (Alt (Lit ''true'') (Lit ''false''))]),
     param_description]"

definition choice_param_pattern :: rx where
  "choice_param_pattern = Cat [param_head ''choice'',
     Opt (Cat [Lit '','', ws, Lit ''choices'', ws, Lit '':'', ws, Lit ''['',
               Grp 2 (Plus (NotIn [Ch (CHR '']'')])), Lit '']'']),
     param_description]"

definition string_param :: "re_match \<Rightarrow> string \<times> param_info" where
  "string_param m = (group_or_empty m 1,
     \<lparr>p_type = ''string'', p_default = Default_str (group_or_empty m 2),
      p_description = group_or_empty m 3, p_options = None\<rparr>)"

definition boolean_param :: "re_match \<Rightarrow> string \<times> param_info" where
  "boolean_param m = (group_or_empty m 1,
     \<lparr>p_type = ''boolean'',
      p_default = Default_bool
        (lower (case group m 2 of None \<Rightarrow> ''false'' | Some d \<Rightarrow> if d = [] then ''false'' else d) = ''true''),
      p_description = group_or_empty m 3, p_options = None\<rparr>)"

definition choice_param :: "re_match \<Rightarrow> string \<times> param_info" where
  "choice_param m =
     (let choices = map (\<lambda>c. strip_chars [CHR 0x27, CHR 0x22] (strip c))
                      (filter (\<lambda>c. strip c \<noteq> []) (split_on (CHR '','') (group_or_empty m 2)))
      in (group_or_empty m 1,
          \<lparr>p_type = ''choice'',
           p_default = Default_str (case choices of [] \<Rightarrow> [] | c # _ \<Rightarrow> c),
           p_description = group_or_empty m 3, p_options = Some choices\<rparr>))"

text \<open>The assignments \<open>params[name] = ...\<close> of the three loops, in the order they run.\<close>

definition param_declarations :: "string \<Rightarrow> (string \<times> param_info) list" where
  "param_declarations param_body =
     map string_param (finditer string_param_pattern param_body)
     @ map boolean_param (finditer boolean_param_pattern param_body)
     @ map choice_param (finditer choice_param_pattern param_body)"

definition extract_parameters :: "string \<Rightarrow> (string \<times> param_info) list" where
  "extract_parameters pipeline_body =
     (case find_block pipeline_body (kw ''parameters'') of (s, e) \<Rightarrow>
        if s = - 1 then []
        else foldl (\<lambda>params (name, info). dict_set name info params) []
               (param_declarations (slice pipeline_body s e)))"

text \<open>
  \<open>_extract_post_body\<close>. Of a condition block the archive path, the commands and
  the mail recipient are kept, each only when found; a condition with none of them
  gets no entry.
\<close>

record post_data =
  archive :: "string option"
  commands :: "string list option"
  mail_to :: "string option"

definition search_group1 :: "rx \<Rightarrow> string \<Rightarrow> string option" where
  "search_group1 r s = (case re_search r s of None \<Rightarrow> None | Some m \<Rightarrow> Some (strip (group_or_empty m 1)))"

definition collect_post :: "string \<Rightarrow> string \<Rightarrow> post_data option" where
  "collect_post post_body kind =
     (case find_block post_body (kw kind) of (ks, ke) \<Rightarrow>
        if ks = - 1 then None
        else
          (let kbody = slice post_body ks ke;
               cmds = map (\<lambda>m. strip (group_or_empty m 1)) (finditer sh_pattern kbody)
                      @ concat (map (\<lambda>m. multiline_to_commands (group_or_empty m 2)) (finditer sh_triple_pattern kbody))
                      @ map (\<lambda>m. ''echo '' @ strip (group_or_empty m 1)) (finditer echo_pattern kbody);
               data = \<lparr>archive = search_group1
                         (Cat [Lit ''archiveArtifacts'', ws, Lit ''('', ws, Lit ''artifacts'', ws, Lit '':'', ws, quoted1 1]) kbody,
                       commands = (if cmds = [] then None else Some cmds),
                       mail_to = search_group1 (Cat [Lit ''mail'', ws1, Lit ''to'', ws, Lit '':'', ws, quoted1 1]) kbody\<rparr>
           in if archive data = None \<and> commands data = None \<and> mail_to data = None then None else Some data))"

definition post_kinds :: "string list" where
  "post_kinds = [''always'', ''success'', ''failure'', ''cleanup'']"

definition extract_post_body :: "string \<Rightarrow> (string \<times> post_data) list" where
  "extract_post_body body =
     (case find_block body (kw ''post'') of (ps, pe) \<Rightarrow>
        if ps = - 1 then []
        else concat (map (\<lambda>kind. case collect_post (slice body ps pe) kind of
                                    None \<Rightarrow> [] | Some kdata \<Rightarrow> [(kind, kdata)]) post_kinds))"

definition extract_stage_post :: "string \<Rightarrow> (string \<times> post_data) list" where
  "extract_stage_post stage_body = extract_post_body stage_body"

definition extract_pipeline_post :: "string \<Rightarrow> (string \<times> post_data) list" where
  "extract_pipeline_post pipeline_body = extract_post_body pipeline_body"


section \<open>action_generator.py\<close>

text \<open>\<open>s.replace(old, new)\<close>: the occurrences of \<open>old\<close> from the left, none overlapping.\<close>

fun replace_from :: "string \<Rightarrow> string \<Rightarrow> nat \<Rightarrow> string \<Rightarrow> string" where
  "replace_from old new skip [] = []"
| "replace_from old new skip (c # cs) =
     (if 0 < skip then replace_from old new (skip - 1) cs
      else if take (length old) (c # cs) = old then new @ replace_from old new (length old - 1) cs
      else c # replace_from old new 0 cs)"

definition replace :: "string \<Rightarrow> string \<Rightarrow> string \<Rightarrow> string" where
  "replace s old new = replace_from old new 0 s"

text \<open>
  \<open>convert_git_steps_to_actions\<close>. Of a checkout step the entries of \<open>with\<close> are
  kept: \<open>repository\<close>, \<open>ref\<close> and \<open>token\<close>, each only when set.
\<close>

record checkout_step =
  repository :: "string option"
  ref :: "string option"
  token :: "string option"

definition secret_name :: "string \<Rightarrow> string" where
  "secret_name cred = replace (upper cred) ''-'' ''_''"

definition git_step_to_action :: "git_step \<Rightarrow> checkout_step" where
  "git_step_to_action g =
     \<lparr>repository =
        (if url g = [] then None
         else if startswith (url g) ''https://github.com/''
           then Some (replace (replace (url g) ''https://github.com/'' []) ''.git'' [])
         else if contains ''/'' (url g) \<and> \<not> startswith (url g) ''http'' then Some (url g)
         else None),
      ref =
        (if branch g = [] then None
         else if contains ''${params.'' (branch g)
           then (case re_search (Cat [Lit ''${params.'', Grp 1 (Plus (NotIn [Ch (CHR ''}'')])), Lit ''}'']) (branch g) of
                   None \<Rightarrow> None
                 | Some m \<Rightarrow> Some (''${{ inputs.'' @ group_or_empty m 1 @ '' }}''))
         else Some (branch g)),
      token =
        (if credentialsId g = [] then None
         else Some (''${{ secrets.'' @ secret_name (credentialsId g) @ '' }}''))\<rparr>"

definition convert_git_steps_to_actions :: "git_step list \<Rightarrow> checkout_step list" where
  "convert_git_steps_to_actions git_steps = map git_step_to_action git_steps"

text \<open>
  \<open>save_enhanced_composite_actions\<close> returns one record for each stage handed over.
  Its name, path, approval environment and credentials are kept; writing the action
  files is not modelled.
\<close>

record action_info =
  a_name :: string
  a_path :: string
  a_approval_environment :: string
  a_credentials :: "string set"

definition convert_input_steps_to_environment :: "input_step list \<Rightarrow> string \<Rightarrow> string" where
  "convert_input_steps_to_environment input_steps stage_name =
     (if input_steps \<noteq> [] then ''approval-'' @ sanitize_name (lower stage_name) else [])"

definition save_enhanced_composite_actions :: "stage list \<Rightarrow> action_info list" where
  "save_enhanced_composite_actions stages_info =
     map (\<lambda>stage_info.
            \<lparr>a_name = s_name stage_info,
             a_path = ''./.github/actions/'' @ sanitize_name (lower (s_name stage_info)),
             a_approval_environment =
               convert_input_steps_to_environment (extract_input_steps (s_content stage_info)) (s_name stage_info),
             a_credentials = extract_credentials_usage (s_content stage_info)\<rparr>)
       stages_info"

section \<open>converter.py\<close>

text \<open>
  The jobs of the workflow are a \<open>dict\<close> from job id to job definition. Of a job
  definition the keys \<open>needs\<close> and \<open>if\<close> are kept; no other key is read where the
  dependencies are set. \<open>needs\<close> is stored as one job id (a string) or as a list of
  job ids; \<open>needs_entries\<close> is the list of the job ids it names.
\<close>

datatype error = ValueError string

datatype needs = Needs_str string | Needs_list "string list"

record job_def =
  j_needs :: "needs option"
  j_if :: "string option"

type_synonym jobs = "(string \<times> job_def) list"

fun needs_entries :: "needs option \<Rightarrow> string list" where
  "needs_entries None = []"
| "needs_entries (Some (Needs_str job)) = [job]"
| "needs_entries (Some (Needs_list js)) = js"

definition if_cond :: "string \<Rightarrow> string option" where
  "if_cond body =
     (let branch = extract_stage_when_branch body
      in if branch \<noteq> [] then Some (''github.ref == 'refs/heads/'' @ branch @ [CHR 0x27]) else None)"

text \<open>
  The variables of the loop over the stages: the jobs, \<open>stages_info\<close> (name and body
  of each stage that became a job), \<open>last_job_ids\<close> and \<open>prev_job_id\<close>.
\<close>

record loop_state =
  l_jobs :: jobs
  l_stages_info :: "stage list"
  l_last_job_ids :: "string list"
  l_prev_job_id :: string

text \<open>One round of the inner loop over the stages of a parallel block.\<close>

definition parallel_job :: "string option \<Rightarrow> loop_state \<times> string list \<Rightarrow> stage \<Rightarrow> loop_state \<times> string list" where
  "parallel_job upstream acc sub =
     (case acc of (st, parallel_ids) \<Rightarrow>
        (let job_id = gha_job_id (s_name sub);
             job = \<lparr>j_needs = (case upstream of None \<Rightarrow> None
                                | Some u \<Rightarrow> if u \<noteq> [] then Some (Needs_str u) else None),
                    j_if = if_cond (s_content sub)\<rparr>
         in (st\<lparr>l_stages_info := l_stages_info st @ [sub],
                l_jobs := dict_set job_id job (l_jobs st)\<rparr>,
             parallel_ids @ [job_id])))"

text \<open>One round of the loop over the stages.\<close>

definition process_stage :: "loop_state \<Rightarrow> stage \<Rightarrow> loop_state" where
  "process_stage st stage =
     (let parallel_substages = extract_parallel (s_content stage) in
      if parallel_substages \<noteq> [] then
        (let upstream = (if l_prev_job_id st \<noteq> [] then Some (l_prev_job_id st)
                         else if l_last_job_ids st \<noteq> [] then Some (last (l_last_job_ids st))
                         else None)
         in case foldl (parallel_job upstream) (st, []) parallel_substages of
              (st', parallel_ids) \<Rightarrow> st'\<lparr>l_last_job_ids := parallel_ids, l_prev_job_id := []\<rparr>)
      else
        (let job_id = gha_job_id (s_name stage);
             job = \<lparr>j_needs = (if l_last_job_ids st \<noteq> [] then Some (Needs_list (l_last_job_ids st))
                                else if l_prev_job_id st \<noteq> [] then Some (Needs_str (l_prev_job_id st))
                                else None),
                    j_if = if_cond (s_content stage)\<rparr>
         in st\<lparr>l_stages_info := l_stages_info st @ [stage],
               l_jobs := dict_set job_id job (l_jobs st),
               l_last_job_ids := [],
               l_prev_job_id := job_id\<rparr>))"

definition process_stages :: "stage list \<Rightarrow> loop_state" where
  "process_stages stages_list =
     foldl process_stage \<lparr>l_jobs = [], l_stages_info = [], l_last_job_ids = [], l_prev_job_id = []\<rparr> stages_list"

text \<open>The steps of the job for the post conditions of the pipeline.\<close>

datatype post_step =
    Checkout
  | Upload_artifacts string string
  | Pipeline_post string "string list"
  | Send_notification string string

definition post_job_steps :: "(string \<times> post_data) list \<Rightarrow> post_step list" where
  "post_job_steps pipeline_post =
     Checkout # concat (map (\<lambda>kind.
       case map_of pipeline_post kind of
         None \<Rightarrow> []
       | Some pdata \<Rightarrow>
           (case archive pdata of None \<Rightarrow> [] | Some p \<Rightarrow> [Upload_artifacts kind p])
           @ (case commands pdata of None \<Rightarrow> [] | Some cs \<Rightarrow> [Pipeline_post kind cs])
           @ (case mail_to pdata of None \<Rightarrow> [] | Some t \<Rightarrow> [Send_notification kind t]))
       post_kinds)"

definition add_pipeline_post :: "(string \<times> post_data) list \<Rightarrow> jobs \<Rightarrow> jobs" where
  "add_pipeline_post pipeline_post js =
     (if pipeline_post \<noteq> [] \<and> 1 < length (post_job_steps pipeline_post) then
        (let all_jobs = filter (\<lambda>k. k \<noteq> ''pipeline-post'') (map fst js)
         in dict_set ''pipeline-post'' \<lparr>j_needs = Some (Needs_list all_jobs), j_if = Some ''always()''\<rparr> js)
      else js)"

text \<open>
  \<open>convert_jenkins_to_gha\<close>, in two parts. \<open>locate_stages\<close> is its beginning, up to
  the list of stages: the body of the pipeline and the stages, or the error raised.
  (The agent, the parameters and the environment, read in between, go to keys that
  are left out here.) The function itself returns the workflow (its jobs) and the
  action records. Rewriting the steps of the jobs after the actions are made changes
  neither \<open>needs\<close> nor \<open>if\<close>, nor the order of the jobs.
\<close>

definition no_pipeline :: error where
  "no_pipeline = ValueError ''Not a declarative Jenkins pipeline (no 'pipeline { ... }' found).''"

definition no_stages :: error where
  "no_stages = ValueError ''No 'stages { ... }' found.''"

definition locate_stages :: "string \<Rightarrow> error + (string \<times> stage list)" where
  "locate_stages jenkins_text =
     (let text = strip_comments jenkins_text in
      case find_block text (kw ''pipeline'') of (pstart, pend) \<Rightarrow>
        if pstart = - 1 then Inl no_pipeline
        else
          (let pipeline_body = slice text pstart pend in
           case find_block pipeline_body (kw ''stages'') of (ss, se) \<Rightarrow>
             if ss = - 1 then Inl no_stages
             else Inr (pipeline_body, split_stages (slice pipeline_body ss se))))"

definition convert_jenkins_to_gha :: "string \<Rightarrow> error + (jobs \<times> action_info list)" where
  "convert_jenkins_to_gha jenkins_text =
     (case locate_stages jenkins_text of
        Inl e \<Rightarrow> Inl e
      | Inr (pipeline_body, stages_list) \<Rightarrow>
          (let pipeline_post = extract_pipeline_post pipeline_body;
               st = process_stages stages_list;
               action_paths = save_enhanced_composite_actions (l_stages_info st)
           in Inr (add_pipeline_post pipeline_post (l_jobs st), action_paths)))"

text \<open>
  The job ids the loop over the stages stores under, in the order it does: for a
  stage with parallel stages theirs, for another stage its own.
\<close>

definition job_ids :: "stage list \<Rightarrow> string list" where
  "job_ids stages_list =
     concat (map (\<lambda>stage.
        (let parallel_substages = extract_parallel (s_content stage)
         in if parallel_substages \<noteq> [] then map (\<lambda>sub. gha_job_id (s_name sub)) parallel_substages
            else [gha_job_id (s_name stage)])) stages_list)"

text \<open>
  No forward reference: every entry of the \<open>needs\<close> of a job is the key of a job that
  stands strictly before it in the jobs.
\<close>

fun refs_ok :: "string list \<Rightarrow> jobs \<Rightarrow> bool" where
  "refs_ok seen [] = True"
| "refs_ok seen ((k, job) # js) =
     (list_all (\<lambda>n. n \<in> set seen) (needs_entries (j_needs job)) \<and> refs_ok (seen @ [k]) js)"

definition no_forward_refs :: "jobs \<Rightarrow> bool" where
  "no_forward_refs js = refs_ok [] js"

section \<open>Notions for the properties\<close>







text \<open>
  Matches in the order of the text: each starts after the start of the one before
  it, and not before its end. A pattern is advancing when none of its matches is
  empty.
\<close>

definition in_text_order :: "re_match list \<Rightarrow> bool" where
  "in_text_order ms = sorted_wrt (\<lambda>a b. m_start a < m_start b \<and> m_end a \<le> m_start b) ms"

definition advancing :: "rx \<Rightarrow> bool" where
  "advancing r = (\<forall>st st'. st' \<in> set (rmatch r st) \<longrightarrow> fst st < fst st')"

text \<open>
  The job ids one stage gives, and what holds of the variables of the loop over the
  stages between two rounds: the job ids are distinct, no job refers forward, and
  \<open>last_job_ids\<close> and \<open>prev_job_id\<close> name jobs that are there.
\<close>

definition stage_ids :: "stage \<Rightarrow> string list" where
  "stage_ids stage =
     (let parallel_substages = extract_parallel (s_content stage)
      in if parallel_substages \<noteq> [] then map (\<lambda>sub. gha_job_id (s_name sub)) parallel_substages
         else [gha_job_id (s_name stage)])"

definition loop_inv :: "loop_state \<Rightarrow> bool" where
  "loop_inv st =
     (distinct (map fst (l_jobs st)) \<and> refs_ok [] (l_jobs st)
      \<and> set (l_last_job_ids st) \<subseteq> set (map fst (l_jobs st))
      \<and> (l_prev_job_id st = [] \<or> l_prev_job_id st \<in> set (map fst (l_jobs st))))"


definition ex_same_id :: string where
  \<open>ex_same_id = ''pipeline { stages { stage("Build") { sh "make" } stage("build") { sh "test" } } }''\<close>

definition ex_parallel :: string where
  \<open>ex_parallel = ''pipeline { stages { stage("Setup") { sh "x" } stage("Tests") { parallel { stage("A") { sh "a" } stage("B") { sh "b" } } } stage("Done") { sh "y" } } post { always { echo "bye" } } }''\<close>

text \<open>
  Line comments as the words have it: from two slashes to the end of the line
  everything goes, the line feed stays; nothing else is looked at, a quote neither.
  The flag says whether the text read lies in a comment.
\<close>

fun drop_line_comments :: "bool \<Rightarrow> string \<Rightarrow> string" where
  "drop_line_comments in_comment [] = []"
| "drop_line_comments True (c # cs) =
     (if c = CHR 0x0A then c # drop_line_comments False cs else drop_line_comments True cs)"
| "drop_line_comments False (c # cs) =
     (if c = CHR ''/'' \<and> take 1 cs = ''/'' then drop_line_comments True cs
      else c # drop_line_comments False cs)"

text \<open>The pattern \<open>//.*\<close> of \<open>strip_comments\<close>.\<close>

definition line_comment :: rx where
  "line_comment = Cat [Lit ''//'', Star Dot]"

text \<open>A pipeline with a checkout from a URL.\<close>

definition ex_git_url :: string where
  \<open>ex_git_url = ''pipeline {
 stages {
  stage("Checkout") {
   steps {
    git url: "https://github.com/owner/repo.git"
   }
  }
 }
}''\<close>

section \<open>Facts about the matcher\<close>

lemma foldl_states_append:
  "foldl (\<lambda>sts r. concat (map (rmatch r) sts)) (xs @ ys) rs
     = foldl (\<lambda>sts r. concat (map (rmatch r) sts)) xs rs @ foldl (\<lambda>sts r. concat (map (rmatch r) sts)) ys rs"
  by (induction rs arbitrary: xs ys) simp_all

lemma foldl_states:
  "foldl (\<lambda>sts r. concat (map (rmatch r) sts)) sts rs = concat (map (\<lambda>st. rmatch (Cat rs) st) sts)"
proof (induction sts)
  case Nil
  show ?case by (induction rs) simp_all
next
  case (Cons st sts)
  from foldl_states_append [of "[st]" sts rs] Cons show ?case by simp
qed

lemma rmatch_Cat_Cons: "rmatch (Cat (r # rs)) st = concat (map (rmatch (Cat rs)) (rmatch r st))"
proof -
  have "rmatch (Cat (r # rs)) st = foldl (\<lambda>sts r. concat (map (rmatch r) sts)) (rmatch r st) rs"
    by simp
  also have "\<dots> = concat (map (\<lambda>st. rmatch (Cat rs) st) (rmatch r st))"
    by (rule foldl_states)
  finally show ?thesis .
qed




text \<open>A match of the stage header begins with the word and ends with the opening brace.\<close>

lemma lit_step_mem:
  "st' \<in> set (lit_step w (i, p, rest, g)) \<Longrightarrow> take (length w) rest = w \<and> fst st' = i + length w"
  by (auto simp: lit_step_def split: if_splits)


text \<open>The matches of a text come in the order of the text.\<close>

lemma finditer_at_order:
  "list_all (\<lambda>m. i \<le> m_start m \<and> m_start m \<le> m_end m) (finditer_at r adv i p rest)
   \<and> sorted_wrt (\<lambda>a b. m_end a \<le> m_start b) (finditer_at r adv i p rest)"
proof (induction r adv i p rest rule: finditer_at.induct)
  case (1 r adv i p rest)
  show ?case
  proof (cases "first_ok adv i (rmatch r (i, p, rest, []))")
    case None
    note no = None
    show ?thesis
    proof (cases rest)
      case Nil
      with no show ?thesis by (subst (1 2) finditer_at.simps) simp
    next
      case (Cons x xs)
      from "1.IH"(1) [OF no Cons] no Cons show ?thesis
        by (subst (1 2) finditer_at.simps) (auto simp: list_all_iff)
    qed
  next
    case (Some st)
    obtain j p' rest' g where st: "st = (j, p', rest', g)" by (cases st) auto
    from Some st have ok: "first_ok adv i (rmatch r (i, p, rest, [])) = Some (j, p', rest', g)" by simp
    then have "reaches (i, p, rest, []) (j, p', rest', g)"
      by (blast dest: first_ok_mem rmatch_reaches)
    then have ij: "i \<le> j" by (simp add: reaches_def)
    from "1.IH"(2) [OF ok refl refl refl]
    have ih: "list_all (\<lambda>m. j \<le> m_start m \<and> m_start m \<le> m_end m) (finditer_at r (j = i) j p' rest')"
      "sorted_wrt (\<lambda>a b. m_end a \<le> m_start b) (finditer_at r (j = i) j p' rest')"
      by simp_all
    from ih ij ok show ?thesis
      by (subst (1 2) finditer_at.simps) (auto simp: list_all_iff)
  qed
qed

lemma finditer_at_advancing:
  assumes "advancing r"
  shows "list_all (\<lambda>m. m_start m < m_end m) (finditer_at r adv i p rest)"
  using assms
proof (induction r adv i p rest rule: finditer_at.induct)
  case (1 r adv i p rest)
  show ?case
  proof (cases "first_ok adv i (rmatch r (i, p, rest, []))")
    case None
    note no = None
    show ?thesis
    proof (cases rest)
      case Nil
      with no show ?thesis by (subst finditer_at.simps) simp
    next
      case (Cons x xs)
      from "1.IH"(1) [OF no Cons "1.prems"] no Cons show ?thesis
        by (subst finditer_at.simps) simp
    qed
  next
    case (Some st)
    obtain j p' rest' g where st: "st = (j, p', rest', g)" by (cases st) auto
    from Some st have ok: "first_ok adv i (rmatch r (i, p, rest, [])) = Some (j, p', rest', g)" by simp
    then have "(j, p', rest', g) \<in> set (rmatch r (i, p, rest, []))" by (rule first_ok_mem)
    with "1.prems" have ij: "i < j" unfolding advancing_def by fastforce
    from "1.IH"(2) [OF ok refl refl refl "1.prems"] ij ok show ?thesis
      by (subst finditer_at.simps) simp
  qed
qed

lemma sorted_wrt_strict:
  "list_all (\<lambda>m. m_start m < m_end m) ms \<Longrightarrow> sorted_wrt (\<lambda>a b. m_end a \<le> m_start b) ms \<Longrightarrow> in_text_order ms"
  unfolding in_text_order_def
  by (induction ms) (auto simp: list_all_iff)

lemma finditer_in_text_order: "advancing r \<Longrightarrow> in_text_order (finditer r s)"
  unfolding finditer_def
  using finditer_at_order [of 0 r False None s] finditer_at_advancing [of r False 0 None s]
  by (blast intro: sorted_wrt_strict)

lemma advancing_Lit_first:
  assumes "w \<noteq> []"
  shows "advancing (Cat (Lit w # rs))"
  unfolding advancing_def
proof (intro allI impI)
  fix st st'
  assume "st' \<in> set (rmatch (Cat (Lit w # rs)) st)"
  then obtain s1 where s1: "s1 \<in> set (lit_step w st)" and r: "st' \<in> set (rmatch (Cat rs) s1)"
    unfolding rmatch_Cat_Cons by auto
  obtain i p rest g where st: "st = (i, p, rest, g)" by (cases st) auto
  from lit_step_mem [OF s1 [unfolded st]] assms st have "fst st < fst s1" by simp
  moreover from rmatch_reaches [OF r] have "fst s1 \<le> fst st'"
    by (cases s1; cases st') (simp add: reaches_def)
  ultimately show "fst st < fst st'" by simp
qed

lemma advancing_WordB_Lit:
  assumes "w \<noteq> []"
  shows "advancing (Cat (WordB # Lit w # rs))"
  unfolding advancing_def
proof (intro allI impI)
  fix st st'
  assume "st' \<in> set (rmatch (Cat (WordB # Lit w # rs)) st)"
  then obtain s0 where s0: "s0 \<in> set (rmatch WordB st)" and r: "st' \<in> set (rmatch (Cat (Lit w # rs)) s0)"
    unfolding rmatch_Cat_Cons [of WordB] by auto
  from s0 have "s0 = st" by (cases st) (auto split: if_splits)
  with r advancing_Lit_first [OF assms, of rs] show "fst st < fst st'"
    unfolding advancing_def by blast
qed

lemma advancing_Lit: "w \<noteq> [] \<Longrightarrow> advancing (Lit w)"
  unfolding advancing_def
proof (intro allI impI)
  fix st st'
  assume w: "w \<noteq> []" and m: "st' \<in> set (rmatch (Lit w) st)"
  obtain i p rest g where st: "st = (i, p, rest, g)" by (cases st) auto
  from m have "st' \<in> set (lit_step w (i, p, rest, g))" unfolding st by simp
  from lit_step_mem [OF this] w st show "fst st < fst st'" by simp
qed

lemma advancing_Cat_first:
  assumes "advancing r"
  shows "advancing (Cat (r # rs))"
  unfolding advancing_def
proof (intro allI impI)
  fix st st'
  assume "st' \<in> set (rmatch (Cat (r # rs)) st)"
  then obtain s1 where s1: "s1 \<in> set (rmatch r st)" and r: "st' \<in> set (rmatch (Cat rs) s1)"
    unfolding rmatch_Cat_Cons by auto
  from assms s1 have "fst st < fst s1" unfolding advancing_def by blast
  moreover from rmatch_reaches [OF r] have "fst s1 \<le> fst st'"
    by (cases s1; cases st') (simp add: reaches_def)
  ultimately show "fst st < fst st'" by simp
qed

section \<open>Facts about slices and the brace scan\<close>



section \<open>Facts about dictionaries\<close>

lemma map_of_dict_set: "map_of (dict_set k v d) = (map_of d)(k \<mapsto> v)"
  by (induction d) (auto simp: fun_eq_iff)

lemma map_fst_dict_set:
  "map fst (dict_set k v d) = (if k \<in> set (map fst d) then map fst d else map fst d @ [k])"
  by (induction d) (force simp: image_iff)+

lemma keys_dict_set: "set (map fst (dict_set k v d)) = insert k (set (map fst d))"
  by (auto simp: map_fst_dict_set)

lemma distinct_dict_set: "distinct (map fst d) \<Longrightarrow> distinct (map fst (dict_set k v d))"
  by (auto simp: map_fst_dict_set)

lemma dict_set_new: "k \<notin> set (map fst d) \<Longrightarrow> dict_set k v d = d @ [(k, v)]"
  by (induction d) auto

lemma foldl_dict_set:
  "map_of (foldl (\<lambda>d (k, v). dict_set k v d) d xs) = map_of d ++ map_of (rev xs)
   \<and> set (map fst (foldl (\<lambda>d (k, v). dict_set k v d) d xs)) = set (map fst d) \<union> set (map fst xs)
   \<and> (distinct (map fst d) \<longrightarrow> distinct (map fst (foldl (\<lambda>d (k, v). dict_set k v d) d xs)))"
proof (induction xs arbitrary: d)
  case Nil
  then show ?case by simp
next
  case (Cons x xs)
  obtain k v where x: "x = (k, v)" by (cases x) auto
  have "map_of (dict_set k v d) ++ map_of (rev xs) = map_of d ++ map_of (rev xs @ [(k, v)])"
    by (simp add: map_of_dict_set fun_eq_iff map_add_def split: option.splits)
  with Cons [of "dict_set k v d"] show ?case
    using keys_dict_set [of k v d] distinct_dict_set [of d k v] by (auto simp: x)
qed

lemma map_of_rev_last:
  "map_of (rev xs) k = (case filter (\<lambda>d. fst d = k) xs of [] \<Rightarrow> None | ds \<Rightarrow> Some (snd (last ds)))"
proof (induction xs rule: rev_induct)
  case Nil
  then show ?case by simp
next
  case (snoc x xs)
  then show ?case by (cases x) (auto split: list.splits)
qed

section \<open>Facts about the loop over the stages\<close>

lemma job_ids_Cons: "job_ids (stage # sl) = stage_ids stage @ job_ids sl"
  by (simp add: job_ids_def stage_ids_def)

lemma job_ids_Nil: "job_ids [] = []"
  by (simp add: job_ids_def)

lemma refs_ok_append:
  "refs_ok seen (js @ [(k, job)])
     = (refs_ok seen js \<and> set (needs_entries (j_needs job)) \<subseteq> set seen \<union> set (map fst js))"
  by (induction js arbitrary: seen) (auto simp: list_all_iff)

lemma parallel_jobs:
  assumes "case upstream of None \<Rightarrow> True | Some u \<Rightarrow> u \<in> set (map fst (l_jobs st))"
    and "distinct (map fst (l_jobs st) @ map (\<lambda>sub. gha_job_id (s_name sub)) subs)"
    and "refs_ok [] (l_jobs st)"
    and "foldl (parallel_job upstream) (st, pids) subs = (st', pids')"
  shows "map fst (l_jobs st') = map fst (l_jobs st) @ map (\<lambda>sub. gha_job_id (s_name sub)) subs
     \<and> refs_ok [] (l_jobs st')
     \<and> pids' = pids @ map (\<lambda>sub. gha_job_id (s_name sub)) subs
     \<and> l_last_job_ids st' = l_last_job_ids st \<and> l_prev_job_id st' = l_prev_job_id st"
  using assms
proof (induction subs arbitrary: st pids)
  case Nil
  then show ?case by simp
next
  case (Cons sub subs)
  let ?id = "gha_job_id (s_name sub)"
  let ?job = "\<lparr>j_needs = (case upstream of None \<Rightarrow> None | Some u \<Rightarrow> if u \<noteq> [] then Some (Needs_str u) else None),
               j_if = if_cond (s_content sub)\<rparr>"
  let ?st1 = "st\<lparr>l_stages_info := l_stages_info st @ [sub], l_jobs := dict_set ?id ?job (l_jobs st)\<rparr>"
  have step: "parallel_job upstream (st, pids) sub = (?st1, pids @ [?id])"
    by (simp add: parallel_job_def Let_def)
  from Cons.prems(2) have new: "?id \<notin> set (map fst (l_jobs st))" by auto
  then have jobs1: "l_jobs ?st1 = l_jobs st @ [(?id, ?job)]" by (simp add: dict_set_new)
  have needs: "set (needs_entries (j_needs ?job)) \<subseteq> set (map fst (l_jobs st))"
    using Cons.prems(1) by (cases upstream) auto
  have a1: "case upstream of None \<Rightarrow> True | Some u \<Rightarrow> u \<in> set (map fst (l_jobs ?st1))"
    using Cons.prems(1) jobs1 by (cases upstream) auto
  have a2: "distinct (map fst (l_jobs ?st1) @ map (\<lambda>sub. gha_job_id (s_name sub)) subs)"
    using Cons.prems(2) jobs1 by auto
  have a3: "refs_ok [] (l_jobs ?st1)"
    using Cons.prems(3) needs by (simp only: jobs1 refs_ok_append) simp
  have a4: "foldl (parallel_job upstream) (?st1, pids @ [?id]) subs = (st', pids')"
    using Cons.prems(4) step by simp
  from Cons.IH [OF a1 a2 a3 a4] jobs1 show ?case by simp
qed

lemma process_stage_inv:
  assumes "loop_inv st" and "distinct (map fst (l_jobs st) @ stage_ids stage)"
  shows "loop_inv (process_stage st stage)
     \<and> map fst (l_jobs (process_stage st stage)) = map fst (l_jobs st) @ stage_ids stage"
proof (cases "extract_parallel (s_content stage) = []")
  case True
  let ?id = "gha_job_id (s_name stage)"
  let ?job = "\<lparr>j_needs = (if l_last_job_ids st \<noteq> [] then Some (Needs_list (l_last_job_ids st))
                                else if l_prev_job_id st \<noteq> [] then Some (Needs_str (l_prev_job_id st))
                                else None),
               j_if = if_cond (s_content stage)\<rparr>"
  from True have ids: "stage_ids stage = [?id]" by (simp add: stage_ids_def)
  with assms(2) have new: "?id \<notin> set (map fst (l_jobs st))" by auto
  then have jobs1: "dict_set ?id ?job (l_jobs st) = l_jobs st @ [(?id, ?job)]" by (simp add: dict_set_new)
  have ps: "process_stage st stage = st\<lparr>l_stages_info := l_stages_info st @ [stage],
               l_jobs := l_jobs st @ [(?id, ?job)], l_last_job_ids := [], l_prev_job_id := ?id\<rparr>"
    using True jobs1 by (simp add: process_stage_def Let_def)
  have needs: "set (needs_entries (j_needs ?job)) \<subseteq> set (map fst (l_jobs st))"
    using assms(1) by (auto simp: loop_inv_def)
  have "refs_ok [] (l_jobs st @ [(?id, ?job)])"
    using assms(1) needs by (simp only: refs_ok_append) (simp add: loop_inv_def)
  with assms new show ?thesis
    unfolding ps ids by (simp add: loop_inv_def)
next
  case False
  let ?subs = "extract_parallel (s_content stage)"
  let ?upstream = "if l_prev_job_id st \<noteq> [] then Some (l_prev_job_id st)
                         else if l_last_job_ids st \<noteq> [] then Some (last (l_last_job_ids st))
                         else None"
  from False have ids: "stage_ids stage = map (\<lambda>sub. gha_job_id (s_name sub)) ?subs"
    by (simp add: stage_ids_def)
  obtain st' pids' where f: "foldl (parallel_job ?upstream) (st, []) ?subs = (st', pids')"
    by (cases "foldl (parallel_job ?upstream) (st, []) ?subs") auto
  have up: "case ?upstream of None \<Rightarrow> True | Some u \<Rightarrow> u \<in> set (map fst (l_jobs st))"
    using assms(1) by (auto simp: loop_inv_def dest: last_in_set)
  from assms(1) have r: "refs_ok [] (l_jobs st)" by (simp add: loop_inv_def)
  from parallel_jobs [OF up assms(2) [unfolded ids] r f]
  have res: "map fst (l_jobs st') = map fst (l_jobs st) @ stage_ids stage" "refs_ok [] (l_jobs st')"
    "pids' = stage_ids stage"
    by (simp_all add: ids)
  have ps: "process_stage st stage = st'\<lparr>l_last_job_ids := pids', l_prev_job_id := []\<rparr>"
    using False f by (simp add: process_stage_def Let_def)
  from res assms(2) show ?thesis
    unfolding ps by (simp add: loop_inv_def)
qed

lemma process_loop_inv:
  assumes "loop_inv st" and "distinct (map fst (l_jobs st) @ job_ids sl)"
  shows "loop_inv (foldl process_stage st sl)
     \<and> map fst (l_jobs (foldl process_stage st sl)) = map fst (l_jobs st) @ job_ids sl"
  using assms
proof (induction sl arbitrary: st)
  case Nil
  then show ?case by (simp add: job_ids_Nil)
next
  case (Cons stage sl)
  from Cons.prems(2) have d: "distinct (map fst (l_jobs st) @ stage_ids stage)"
    by (auto simp: job_ids_Cons)
  from process_stage_inv [OF Cons.prems(1) d]
  have 1: "loop_inv (process_stage st stage)"
    and 2: "map fst (l_jobs (process_stage st stage)) = map fst (l_jobs st) @ stage_ids stage"
    by simp_all
  from Cons.prems(2) 2 have 3: "distinct (map fst (l_jobs (process_stage st stage)) @ job_ids sl)"
    by (auto simp: job_ids_Cons)
  from Cons.IH [OF 1 3] 2 show ?case by (simp add: job_ids_Cons)
qed

lemma process_stages_jobs:
  assumes "distinct (job_ids sl)"
  shows "refs_ok [] (l_jobs (process_stages sl))" and "map fst (l_jobs (process_stages sl)) = job_ids sl"
proof -
  let ?init = "\<lparr>l_jobs = [], l_stages_info = [], l_last_job_ids = [], l_prev_job_id = []\<rparr>"
  have "loop_inv ?init" by (simp add: loop_inv_def)
  from process_loop_inv [OF this, of sl] assms
  show "refs_ok [] (l_jobs (process_stages sl))" and "map fst (l_jobs (process_stages sl)) = job_ids sl"
    by (simp_all add: process_stages_def loop_inv_def)
qed

lemma add_pipeline_post_cases:
  assumes "''pipeline-post'' \<notin> set (map fst js)"
  shows "add_pipeline_post pp js = js
     \<or> add_pipeline_post pp js = js @ [(''pipeline-post'', \<lparr>j_needs = Some (Needs_list (map fst js)), j_if = Some ''always()''\<rparr>)]"
proof -
  from assms have "filter (\<lambda>k. k \<noteq> ''pipeline-post'') (map fst js) = map fst js"
    by (force simp: filter_id_conv)
  with assms show ?thesis
    by (simp add: add_pipeline_post_def Let_def dict_set_new)
qed




section \<open>Facts about texts without a closing brace\<close>





section \<open>The brace block locator\<close>

text \<open>
  C2. Whatever the text and the keyword pattern, a span that \<open>find_block\<close> returns,
  other than the sentinel \<open>(-1, -1)\<close>, satisfies \<open>0 \<le> start \<le> end \<le> len(text)\<close>, and
  the content \<open>text[start:end]\<close> holds as many opening as closing braces.
\<close>

theorem find_block_span:
  assumes "find_block text pat = (s, e)" and "(s, e) \<noteq> (- 1, - 1)"
  shows "0 \<le> s \<and> s \<le> e \<and> e \<le> int (length text) \<and>
         count_list (slice text s e) (CHR ''{'') = count_list (slice text s e) (CHR ''}'')"
proof -
  from assms obtain m where m: "re_search pat text = Some m"
    by (auto simp: find_block_def split: option.splits)
  define i where "i = skip_spaces text (m_end m)"
  from assms m have i: "i < length text"
    by (auto simp: find_block_def Let_def i_def split: if_splits)
  from assms m i obtain j where j: "scan_close (drop (i + 1) text) (i + 1) 0 = Some j"
    and se: "s = int (i + 1)" "e = int j"
    by (auto simp: find_block_def Let_def i_def split: option.splits if_splits)
  from scan_close_span [OF j] i have sp: "i + 1 \<le> j" "j < length text" 
    "count_list (take (j - (i + 1)) (drop (i + 1) text)) (CHR ''{'')
      = count_list (take (j - (i + 1)) (drop (i + 1) text)) (CHR ''}'')"
    by auto
  have "nat (1 + int i) = Suc i" by simp
  then have "slice text s e = take (j - (i + 1)) (drop (i + 1) text)"
    using sp(1,2) by (simp add: slice_def norm_index_def se drop_take min_def)
  with sp se show ?thesis by simp
qed

theorem find_block_span_witness:
  "find_block ''stages { a { b } c }'' (kw ''stages'') = (8, 19) \<and> ((8, 19) :: int \<times> int) \<noteq> (- 1, - 1) \<and>
   (0::int) \<le> 8 \<and> (8::int) \<le> 19 \<and> 19 \<le> int (length ''stages { a { b } c }'') \<and>
   count_list (slice ''stages { a { b } c }'' 8 19) (CHR ''{'') = count_list (slice ''stages { a { b } c }'' 8 19) (CHR ''}'')"
proof -
  have h: "find_block ''stages { a { b } c }'' (kw ''stages'') = (8, 19)" by code_simp
  show ?thesis using h find_block_span [OF h] by simp
qed

section \<open>The dependencies of the jobs\<close>

text \<open>
  C1, as the code has it. When the job ids of the stages are pairwise distinct and
  none is \<open>pipeline-post\<close>, every entry of the \<open>needs\<close> of every job is the key of a
  job that stands strictly before it in the jobs; the jobs are those of the stages, in
  the order of the loop, and then the job \<open>pipeline-post\<close> if there is one, whose
  \<open>needs\<close> are all the other jobs.
\<close>

theorem needs_refer_backwards:
  assumes "locate_stages text = Inr (pipeline_body, stages_list)"
    and "distinct (job_ids stages_list)"
    and "''pipeline-post'' \<notin> set (job_ids stages_list)"
    and "convert_jenkins_to_gha text = Inr (js, acts)"
  shows "no_forward_refs js
     \<and> (case map_of js ''pipeline-post'' of None \<Rightarrow> map fst js = job_ids stages_list
         | Some job \<Rightarrow> map fst js = job_ids stages_list @ [''pipeline-post'']
                       \<and> needs_entries (j_needs job) = job_ids stages_list)"
proof -
  let ?js0 = "l_jobs (process_stages stages_list)"
  let ?pp = "extract_pipeline_post pipeline_body"
  from assms(1,4) have js: "js = add_pipeline_post ?pp ?js0"
    by (simp add: convert_jenkins_to_gha_def Let_def)
  note p = process_stages_jobs [OF assms(2)]
  from assms(3) p(2) have nk: "''pipeline-post'' \<notin> set (map fst ?js0)" by simp
  from nk have none: "map_of ?js0 ''pipeline-post'' = None"
    by (simp add: map_of_eq_None_iff)
  from add_pipeline_post_cases [OF nk, of ?pp]
  show ?thesis
  proof
    assume "add_pipeline_post ?pp ?js0 = ?js0"
    with js p none show ?thesis
      by (simp add: no_forward_refs_def)
  next
    assume a: "add_pipeline_post ?pp ?js0
      = ?js0 @ [(''pipeline-post'', \<lparr>j_needs = Some (Needs_list (map fst ?js0)), j_if = Some ''always()''\<rparr>)]"
    have "refs_ok [] (?js0 @ [(''pipeline-post'', \<lparr>j_needs = Some (Needs_list (map fst ?js0)), j_if = Some ''always()''\<rparr>)])"
      using p(1) by (simp only: refs_ok_append) simp
    moreover have "map_of (?js0 @ [(''pipeline-post'', \<lparr>j_needs = Some (Needs_list (map fst ?js0)), j_if = Some ''always()''\<rparr>)]) ''pipeline-post''
      = Some \<lparr>j_needs = Some (Needs_list (map fst ?js0)), j_if = Some ''always()''\<rparr>"
      using none by (simp add: map_add_def)
    ultimately show ?thesis
      unfolding js a using p(2) by (simp add: no_forward_refs_def)
  qed
qed

theorem needs_refer_backwards_witness:
  "\<not> isl (locate_stages ex_parallel)
   \<and> job_ids (snd (projr (locate_stages ex_parallel))) = [''setup'', ''a'', ''b'', ''done'']
   \<and> distinct [''setup'', ''a'', ''b'', ''done'']
   \<and> ''pipeline-post'' \<notin> set [''setup'', ''a'', ''b'', ''done'']
   \<and> map (\<lambda>(k, job). (k, j_needs job)) (fst (projr (convert_jenkins_to_gha ex_parallel)))
       = [(''setup'', None),
          (''a'', Some (Needs_str ''setup'')),
          (''b'', Some (Needs_str ''setup'')),
          (''done'', Some (Needs_list [''a'', ''b''])),
          (''pipeline-post'', Some (Needs_list [''setup'', ''a'', ''b'', ''done'']))]
   \<and> no_forward_refs (fst (projr (convert_jenkins_to_gha ex_parallel)))"
proof -
  have loc: "\<not> isl (locate_stages ex_parallel)"
    and ids: "job_ids (snd (projr (locate_stages ex_parallel))) = [''setup'', ''a'', ''b'', ''done'']"
    by code_simp+
  have conv: "\<not> isl (convert_jenkins_to_gha ex_parallel)"
    and js: "map (\<lambda>(k, job). (k, j_needs job)) (fst (projr (convert_jenkins_to_gha ex_parallel)))
       = [(''setup'', None),
          (''a'', Some (Needs_str ''setup'')),
          (''b'', Some (Needs_str ''setup'')),
          (''done'', Some (Needs_list [''a'', ''b''])),
          (''pipeline-post'', Some (Needs_list [''setup'', ''a'', ''b'', ''done'']))]"
    by code_simp+
  from loc have l: "locate_stages ex_parallel
      = Inr (fst (projr (locate_stages ex_parallel)), snd (projr (locate_stages ex_parallel)))"
    by (cases "locate_stages ex_parallel") simp_all
  from conv have c: "convert_jenkins_to_gha ex_parallel
      = Inr (fst (projr (convert_jenkins_to_gha ex_parallel)), snd (projr (convert_jenkins_to_gha ex_parallel)))"
    by (cases "convert_jenkins_to_gha ex_parallel") simp_all
  have d: "distinct (job_ids (snd (projr (locate_stages ex_parallel))))"
    and np: "''pipeline-post'' \<notin> set (job_ids (snd (projr (locate_stages ex_parallel))))"
    unfolding ids by simp_all
  from needs_refer_backwards [OF l d np c]
  have "no_forward_refs (fst (projr (convert_jenkins_to_gha ex_parallel)))" by blast
  with loc ids js show ?thesis by simp
qed

text \<open>
  C1 as stated fails: the stages \<open>Build\<close> and \<open>build\<close> give the same job id, the second
  job replaces the first, and its \<open>needs\<close> names itself, a job that does not stand
  strictly before it.
\<close>

theorem needs_refer_backwards_counterexample:
  "map (\<lambda>(k, job). (k, j_needs job)) (fst (projr (convert_jenkins_to_gha ex_same_id)))
     = [(''build'', Some (Needs_str ''build''))]
   \<and> \<not> isl (convert_jenkins_to_gha ex_same_id)
   \<and> \<not> no_forward_refs (fst (projr (convert_jenkins_to_gha ex_same_id)))"
  by code_simp

section \<open>The credentials of a stage\<close>

text \<open>
  C3 at the list \<open>sshagent(["deploy-key", "backup-key"])\<close>: the pattern that reads the
  entries takes the separator between two entries for an entry, so the comma is
  in the set of credentials, and the set is not the set of the identifiers.
\<close>

theorem sshagent_separator_credential:
  \<open>extract_credentials_usage ''sshagent(["deploy-key", "backup-key"])''
     = {''deploy-key'', '','', ''backup-key''}\<close>
  by code_simp

section \<open>The errors of the conversion\<close>



section \<open>The commands of a stage\<close>

lemma steps_patterns_advancing: "advancing sh_triple_pattern" "advancing sh_pattern" "advancing echo_pattern"
  unfolding sh_triple_pattern_def sh_pattern_def echo_pattern_def
  by (rule advancing_Lit_first advancing_WordB_Lit, simp)+

text \<open>
  C5, as the code has it. The commands come in three groups: first the lines of all
  triple-quoted scripts, then all single-line \<open>sh\<close> commands, then all \<open>echo\<close>
  commands. Within each group they follow the order of their matches in the zone.
\<close>

theorem steps_commands_grouped:
  "extract_steps_commands stage_body =
     concat (map (\<lambda>m. multiline_to_commands (group_or_empty m 2)) (finditer sh_triple_pattern (steps_zone stage_body)))
     @ map (\<lambda>m. strip (group_or_empty m 1)) (finditer sh_pattern (steps_zone stage_body))
     @ map (\<lambda>m. ''echo '' @ strip (group_or_empty m 1)) (finditer echo_pattern (steps_zone stage_body))
   \<and> in_text_order (finditer sh_triple_pattern (steps_zone stage_body))
   \<and> in_text_order (finditer sh_pattern (steps_zone stage_body))
   \<and> in_text_order (finditer echo_pattern (steps_zone stage_body))"
  by (simp add: extract_steps_commands_def Let_def finditer_in_text_order steps_patterns_advancing)

text \<open>
  C5 as stated fails: an \<open>echo\<close> that stands before a \<open>sh\<close> in the text comes after it
  in the list.
\<close>

theorem steps_commands_counterexample:
  \<open>extract_steps_commands ''steps { echo "first" sh "second" }'' = [''second'', ''echo first'']
   \<and> map m_start (finditer echo_pattern (steps_zone ''steps { echo "first" sh "second" }'')) = [1]
   \<and> map m_start (finditer sh_pattern (steps_zone ''steps { echo "first" sh "second" }'')) = [14]\<close>
  by code_simp

section \<open>The secret of a checkout step\<close>







section \<open>The stage splitter\<close>










section \<open>Two stages in a row\<close>



section \<open>The parameters of a pipeline\<close>

lemma param_patterns_advancing:
  "advancing string_param_pattern" "advancing boolean_param_pattern" "advancing choice_param_pattern"
  unfolding string_param_pattern_def boolean_param_pattern_def choice_param_pattern_def param_head_def
  by (intro advancing_Cat_first advancing_Lit, simp)+

text \<open>
  C9, as the code has it. The parameters hold one entry for each declared name, and
  the entry of a name is its last declaration in the order in which the three loops
  run: all \<open>string\<close> declarations in the order of the text, then all \<open>booleanParam\<close>
  declarations, then all \<open>choice\<close> declarations. So among declarations of one form the
  last in the text wins, a \<open>choice\<close> declaration wins over the other forms and a
  \<open>booleanParam\<close> declaration over a \<open>string\<close> one, wherever they stand.
\<close>

theorem parameters_last_processed_wins:
  assumes "find_block pipeline_body (kw ''parameters'') = (s, e)" and "s \<noteq> - 1"
  shows "distinct (map fst (extract_parameters pipeline_body))
    \<and> set (map fst (extract_parameters pipeline_body)) = set (map fst (param_declarations (slice pipeline_body s e)))
    \<and> map_of (extract_parameters pipeline_body) name
        = (case filter (\<lambda>d. fst d = name) (param_declarations (slice pipeline_body s e)) of
             [] \<Rightarrow> None | ds \<Rightarrow> Some (snd (last ds)))
    \<and> param_declarations (slice pipeline_body s e)
        = map string_param (finditer string_param_pattern (slice pipeline_body s e))
          @ map boolean_param (finditer boolean_param_pattern (slice pipeline_body s e))
          @ map choice_param (finditer choice_param_pattern (slice pipeline_body s e))
    \<and> in_text_order (finditer string_param_pattern (slice pipeline_body s e))
    \<and> in_text_order (finditer boolean_param_pattern (slice pipeline_body s e))
    \<and> in_text_order (finditer choice_param_pattern (slice pipeline_body s e))"
proof -
  let ?decls = "param_declarations (slice pipeline_body s e)"
  from assms have ep: "extract_parameters pipeline_body = foldl (\<lambda>d (k, v). dict_set k v d) [] ?decls"
    by (simp add: extract_parameters_def)
  from foldl_dict_set [of "[]" ?decls]
  have "map_of (extract_parameters pipeline_body) name = map_of (rev ?decls) name"
    and "set (map fst (extract_parameters pipeline_body)) = set (map fst ?decls)"
    and "distinct (map fst (extract_parameters pipeline_body))"
    unfolding ep by simp_all
  then show ?thesis
    by (simp add: map_of_rev_last finditer_in_text_order param_patterns_advancing)
       (simp add: param_declarations_def)
qed

theorem parameters_last_processed_wins_witness:
  \<open>find_block ''parameters { choice(name: "X", choices: ["a", "b"]) string(name: "X", defaultValue: "v") string(name: "X", defaultValue: "w") }''
       (kw ''parameters'') = (12, 126)
   \<and> (12 :: int) \<noteq> - 1
   \<and> map_of (extract_parameters ''parameters { choice(name: "X", choices: ["a", "b"]) string(name: "X", defaultValue: "v") string(name: "X", defaultValue: "w") }'') ''X''
       = Some \<lparr>p_type = ''choice'', p_default = Default_str ''a'', p_description = [], p_options = Some [''a'', ''b'']\<rparr>
   \<and> map (\<lambda>d. (fst d, p_type (snd d), p_default (snd d)))
         (param_declarations (slice ''parameters { choice(name: "X", choices: ["a", "b"]) string(name: "X", defaultValue: "v") string(name: "X", defaultValue: "w") }'' 12 126))
       = [(''X'', ''string'', Default_str ''v''), (''X'', ''string'', Default_str ''w''), (''X'', ''choice'', Default_str ''a'')]\<close>
proof -
  let ?t = \<open>''parameters { choice(name: "X", choices: ["a", "b"]) string(name: "X", defaultValue: "v") string(name: "X", defaultValue: "w") }''\<close>
  have h: "find_block ?t (kw ''parameters'') = (12, 126)" by code_simp
  have ne: "(12 :: int) \<noteq> - 1" by simp
  have decls: "param_declarations (slice ?t 12 126)
     = [(''X'', \<lparr>p_type = ''string'', p_default = Default_str ''v'', p_description = [], p_options = None\<rparr>),
        (''X'', \<lparr>p_type = ''string'', p_default = Default_str ''w'', p_description = [], p_options = None\<rparr>),
        (''X'', \<lparr>p_type = ''choice'', p_default = Default_str ''a'', p_description = [], p_options = Some [''a'', ''b'']\<rparr>)]"
    by code_simp
  from parameters_last_processed_wins [OF h ne, of "''X''"]
  have "map_of (extract_parameters ?t) ''X''
      = (case filter (\<lambda>d. fst d = ''X'') (param_declarations (slice ?t 12 126)) of
           [] \<Rightarrow> None | ds \<Rightarrow> Some (snd (last ds)))"
    by blast
  with h decls show ?thesis by simp
qed

text \<open>
  C9 as stated fails: the \<open>string\<close> declaration of \<open>X\<close> is the last in the text, and the
  entry of \<open>X\<close> is the \<open>choice\<close> declaration before it.
\<close>

theorem parameters_counterexample:
  \<open>map_option (\<lambda>i. (p_type i, p_default i))
       (map_of (extract_parameters ''parameters { choice(name: "X", choices: ["a", "b"]) string(name: "X", defaultValue: "v") }'') ''X'')
     = Some (''choice'', Default_str ''a'')
   \<and> map m_start (finditer choice_param_pattern '' choice(name: "X", choices: ["a", "b"]) string(name: "X", defaultValue: "v") '') = [1]
   \<and> map m_start (finditer string_param_pattern '' choice(name: "X", choices: ["a", "b"]) string(name: "X", defaultValue: "v") '') = [40]
   \<and> slice ''parameters { choice(name: "X", choices: ["a", "b"]) string(name: "X", defaultValue: "v") }'' 12 89
       = '' choice(name: "X", choices: ["a", "b"]) string(name: "X", defaultValue: "v") ''
   \<and> find_block ''parameters { choice(name: "X", choices: ["a", "b"]) string(name: "X", defaultValue: "v") }'' (kw ''parameters'')
       = (12, 89)\<close>
  by code_simp

section \<open>Line comments and quoted values\<close>

lemma run_states_last:
  "run_states c i p rest g \<noteq> []
   \<and> fst (last (run_states c i p rest g)) = i + length (takeWhile (in_cls c) rest)
   \<and> fst (snd (snd (last (run_states c i p rest g)))) = dropWhile (in_cls c) rest"
  by (induction c i p rest g rule: run_states.induct) auto

lemma first_ok_head: "fst st \<noteq> i \<Longrightarrow> first_ok adv i (st # sts) = Some st"
  by (cases st) simp

lemma rmatch_line_comment:
  "rmatch line_comment (i, p, rest, g) =
     (if take 2 rest = ''//'' then rev (run_states Dot (i + 2) (Some (CHR ''/'')) (drop 2 rest) g) else [])"
  by (simp add: line_comment_def lit_step_def last_char_def eval_nat_numeral)

lemma in_comment_skip:
  "drop_line_comments True xs = drop_line_comments False (dropWhile (in_cls Dot) xs)"
  by (induction xs) auto

lemma splice_shift:
  assumes "list_all (\<lambda>m. Suc i \<le> m_start m \<and> m_start m \<le> m_end m) ms"
  shows "splice repl i (x # xs) ms = x # splice repl (Suc i) xs ms"
proof (cases ms)
  case Nil
  then show ?thesis by simp
next
  case (Cons m ms')
  with assms have "Suc i \<le> m_start m" "Suc i \<le> m_end m" by auto
  then have "m_start m - i = Suc (m_start m - Suc i)" "m_end m - i = Suc (m_end m - Suc i)" by simp_all
  with Cons show ?thesis by simp
qed

lemma sub_line_comment:
  "splice [] i rest (finditer_at line_comment adv i p rest) = drop_line_comments False rest"
proof (induction "length rest" arbitrary: rest adv i p rule: less_induct)
  case less
  show ?case
  proof (cases "take 2 rest = ''//''")
    case True
    then obtain xs where rest: "rest = CHR ''/'' # CHR ''/'' # xs"
      by (cases rest; cases "tl rest") (auto simp: eval_nat_numeral)
    let ?run = "run_states Dot (i + 2) (Some (CHR ''/'')) xs []"
    let ?st = "last ?run"
    from run_states_last [of Dot "i + 2" "Some (CHR ''/'')" xs "[]"]
    have ne: "?run \<noteq> []" and j: "fst ?st = i + 2 + length (takeWhile (in_cls Dot) xs)"
      and r: "fst (snd (snd ?st)) = dropWhile (in_cls Dot) xs" by simp_all
    obtain j' p' rest' g' where st: "?st = (j', p', rest', g')" by (cases ?st) auto
    from ne have rv: "rev ?run = ?st # rev (butlast ?run)" by (cases ?run rule: rev_cases) simp_all
    from j have "fst ?st \<noteq> i" by simp
    from first_ok_head [OF this] have "first_ok adv i (?st # rev (butlast ?run)) = Some ?st" .
    moreover have "rmatch line_comment (i, p, rest, []) = rev ?run"
      by (simp add: rmatch_line_comment rest)
    ultimately have ok: "first_ok adv i (rmatch line_comment (i, p, rest, [])) = Some (j', p', rest', g')"
      by (simp only: rv st)
    from st j r have j': "j' = i + 2 + length (takeWhile (in_cls Dot) xs)"
      and rest': "rest' = dropWhile (in_cls Dot) xs" by simp_all
    have fi: "finditer_at line_comment adv i p rest
        = \<lparr>m_start = i, m_end = j', m_groups = g'\<rparr> # finditer_at line_comment (j' = i) j' p' rest'"
      by (subst finditer_at.simps) (simp add: ok)
    have "length rest' < length rest"
      unfolding rest' rest using length_dropWhile_le [of "in_cls Dot" xs] by simp
    from less [OF this]
    have ih: "splice [] j' rest' (finditer_at line_comment (j' = i) j' p' rest') = drop_line_comments False rest'" .
    have "drop (j' - i) rest = rest'"
      unfolding j' rest rest' by (simp add: dropWhile_eq_drop)
    with ih have "splice [] i rest (finditer_at line_comment adv i p rest) = drop_line_comments False rest'"
      unfolding fi by simp
    also have "\<dots> = drop_line_comments False rest"
      unfolding rest rest' by (simp add: in_comment_skip)
    finally show ?thesis .
  next
    case False
    then have no: "first_ok adv i (rmatch line_comment (i, p, rest, [])) = None"
      by (simp add: rmatch_line_comment)
    show ?thesis
    proof (cases rest)
      case Nil
      with no show ?thesis by (subst finditer_at.simps) simp
    next
      case (Cons x xs)
      have fi: "finditer_at line_comment adv i p (x # xs) = finditer_at line_comment False (Suc i) (Some x) xs"
        by (subst finditer_at.simps) (use no Cons in simp)
      from finditer_at_order [of "Suc i" line_comment False "Some x" xs]
      have "list_all (\<lambda>m. Suc i \<le> m_start m \<and> m_start m \<le> m_end m)
              (finditer_at line_comment False (Suc i) (Some x) xs)" by simp
      from splice_shift [OF this]
      have "splice [] i rest (finditer_at line_comment adv i p rest)
          = x # splice [] (Suc i) xs (finditer_at line_comment False (Suc i) (Some x) xs)"
        unfolding Cons fi .
      also have "\<dots> = x # drop_line_comments False xs"
        using less [of xs] Cons by simp
      also have "\<dots> = drop_line_comments False rest"
        using False Cons by (cases xs) (auto simp: eval_nat_numeral)
      finally show ?thesis .
    qed
  qed
qed

lemma strip_comments_lines:
  "strip_comments text = drop_line_comments False (re_sub (Cat [Lit ''/*'', Lazy Any, Lit ''*/'']) [] text)"
  using sub_line_comment [of 0 _ False None]
  by (simp add: strip_comments_def re_sub_def finditer_def line_comment_def [symmetric])

lemma comment_output_start:
  "take 1 (drop_line_comments True cs) \<noteq> ''/''"
  "take 1 cs \<noteq> ''/'' \<Longrightarrow> take 1 (drop_line_comments False cs) \<noteq> ''/''"
  by (induction cs) auto

lemma no_slashes_left: "\<not> contains ''//'' (drop_line_comments b s)"
proof (induction b s rule: drop_line_comments.induct)
  case (1 in_comment)
  then show ?case by simp
next
  case (2 c cs)
  then show ?case by (auto simp: eval_nat_numeral)
next
  case (3 c cs)
  show ?case
  proof (cases "c = CHR ''/'' \<and> take 1 cs = ''/''")
    case True
    with 3(1) have "\<not> contains ''//'' (drop_line_comments True cs)" by blast
    with True show ?thesis by simp
  next
    case False
    with 3(2) have ih: "\<not> contains ''//'' (drop_line_comments False cs)" by blast
    have "take 2 (c # drop_line_comments False cs) \<noteq> ''//''"
    proof (cases "c = CHR ''/''")
      case True
      with False have "take 1 cs \<noteq> ''/''" by simp
      from comment_output_start(2) [OF this] show ?thesis
        by (cases "drop_line_comments False cs") (auto simp: eval_nat_numeral)
    next
      case False
      then show ?thesis by (simp add: eval_nat_numeral)
    qed
    with ih False show ?thesis by (auto simp: eval_nat_numeral)
  qed
qed

text \<open>
  C10. Once the block comments are taken out, \<open>strip_comments\<close> cuts every line at
  its first two slashes, in a quoted string as anywhere else, and no two slashes in a row are left in its result. The
  conversion reads the stripped text only. So for the checkout
  \<open>git url: "https://github.com/owner/repo.git"\<close> the stage body that the extractors
  and the action generator get ends the line after \<open>https:\<close>: no git step is found
  in it and the host and the repository are not in it, while the same stage body
  with the line left whole gives the git step and the repository \<open>owner/repo\<close>.
\<close>

theorem line_comments_cut_quoted_values:
  \<open>strip_comments text = drop_line_comments False (re_sub (Cat [Lit ''/*'', Lazy Any, Lit ''*/'']) [] text)
   \<and> \<not> contains ''//'' (strip_comments text)
   \<and> strip_comments ''git url: "https://github.com/owner/repo.git"'' = ''git url: "https:''
   \<and> map s_name (snd (projr (locate_stages ex_git_url))) = [''Checkout'']
   \<and> map s_content (snd (projr (locate_stages ex_git_url))) = [''
   steps {
    git url: "https:
   }
  '']
   \<and> map (\<lambda>stage. extract_git_steps (s_content stage)) (snd (projr (locate_stages ex_git_url))) = [[]]
   \<and> map (\<lambda>stage. contains ''github.com'' (s_content stage)) (snd (projr (locate_stages ex_git_url))) = [False]
   \<and> extract_git_steps ''
   steps {
    git url: "https://github.com/owner/repo.git"
   }
  '' = [\<lparr>branch = [], url = ''https://github.com/owner/repo.git'', credentialsId = []\<rparr>]
   \<and> map repository (convert_git_steps_to_actions (extract_git_steps ''
   steps {
    git url: "https://github.com/owner/repo.git"
   }
  '')) = [Some ''owner/repo'']\<close>
proof -
  have general: "strip_comments text = drop_line_comments False (re_sub (Cat [Lit ''/*'', Lazy Any, Lit ''*/'']) [] text)"
    "\<not> contains ''//'' (strip_comments text)"
    by (simp_all add: strip_comments_lines no_slashes_left)
  have line: \<open>strip_comments ''git url: "https://github.com/owner/repo.git"'' = ''git url: "https:''\<close>
    by code_simp
  have stages: \<open>map s_name (snd (projr (locate_stages ex_git_url))) = [''Checkout'']\<close>
    \<open>map s_content (snd (projr (locate_stages ex_git_url))) = [''
   steps {
    git url: "https:
   }
  '']\<close>
    by code_simp+
  have cut: \<open>extract_git_steps ''
   steps {
    git url: "https:
   }
  '' = []\<close> \<open>contains ''github.com'' ''
   steps {
    git url: "https:
   }
  '' = False\<close>
    by code_simp+
  have whole: \<open>extract_git_steps ''
   steps {
    git url: "https://github.com/owner/repo.git"
   }
  '' = [\<lparr>branch = [], url = ''https://github.com/owner/repo.git'', credentialsId = []\<rparr>]\<close>
    by code_simp
  have repo: \<open>map repository (convert_git_steps_to_actions
      [\<lparr>branch = [], url = ''https://github.com/owner/repo.git'', credentialsId = []\<rparr>]) = [Some ''owner/repo'']\<close>
    by code_simp
  let ?sl = "snd (projr (locate_stages ex_git_url))"
  have "map (\<lambda>stage. extract_git_steps (s_content stage)) ?sl = map extract_git_steps (map s_content ?sl)"
    by (simp add: o_def)
  also have "\<dots> = [[]]" unfolding stages(2) using cut(1) by simp
  finally have none: "map (\<lambda>stage. extract_git_steps (s_content stage)) ?sl = [[]]" .
  have "map (\<lambda>stage. contains ''github.com'' (s_content stage)) ?sl
      = map (contains ''github.com'') (map s_content ?sl)"
    by (simp add: o_def)
  also have "\<dots> = [False]" unfolding stages(2) using cut(2) by simp
  finally have gone: "map (\<lambda>stage. contains ''github.com'' (s_content stage)) ?sl = [False]" .
  from general line stages none gone whole repo show ?thesis by simp
qed

end
